theory Spec2Isabelle
  imports Main "HOL-Library.Multiset"
begin

section \<open>The SMS forwarding bot (\<^verbatim>\<open>bot.py\<close>)\<close>

text \<open>
  The bot polls an SMS inbox over HTTP, forwards the messages it has not seen yet and
  that match the operator's keywords to a Telegram chat, and lets the operator edit the
  configuration through a keyboard menu. This theory embeds \<^verbatim>\<open>poll_sms\<close>,
  \<^verbatim>\<open>handle_message\<close>, \<^verbatim>\<open>handle_pending_input\<close> and the menu handlers.

  Conventions of the embedding:
  \<^item> a Python \<^verbatim>\<open>str\<close> is the list of its Unicode code points (\<open>ustr\<close>); Python's
    unbounded \<^verbatim>\<open>int\<close> is \<open>int\<close>; \<^verbatim>\<open>Optional[T]\<close> is \<open>T option\<close>;
  \<^item> \<^verbatim>\<open>str.lower\<close> (the Unicode case mapping) and \<^verbatim>\<open>int(str)\<close> are library
    functions of Python; they are parameters of the model (record \<open>env\<close>), so every
    theorem holds for whatever they compute;
  \<^item> the network is a parameter as well: what \<^verbatim>\<open>fetch_sms\<close> returns or raises, whether
    each \<^verbatim>\<open>send_message\<close> succeeds, what \<^verbatim>\<open>get_chat\<close> answers;
  \<^item> every call of \<^verbatim>\<open>BotState.update\<close> leaves a \<open>Save\<close> effect holding the
    snapshot written to disk, every \<^verbatim>\<open>send_message\<close> a \<open>Send_message\<close> effect;
  \<^item> a handler runs from start to end as one step: between its read of the configuration
    and its update nothing is awaited but the lock. A poll tick awaits the fetch and
    every send, so other handlers and other ticks run between its read and its update:
    runs with ticks in flight are modelled by \<open>flight_run\<close>, and \<open>run\<close> has the ticks
    that nothing interrupts;
  \<^item> replies to the operator change no state and are left out, and the write of the
    snapshot is taken to succeed.
\<close>

subsection \<open>Strings\<close>

type_synonym ustr = "nat list"

definition asc :: "string \<Rightarrow> ustr" where
  \<comment> \<open>an ASCII literal as code points\<close>
  "asc s = map of_char s"

definition py_isspace :: "nat \<Rightarrow> bool" where
  \<comment> \<open>the code points for which \<^verbatim>\<open>str.isspace\<close> holds\<close>
  "py_isspace c =
     ((9 \<le> c \<and> c \<le> 13) \<or> (28 \<le> c \<and> c \<le> 32) \<or> c = 133 \<or> c = 160 \<or> c = 5760 \<or>
      (8192 \<le> c \<and> c \<le> 8202) \<or> c = 8232 \<or> c = 8233 \<or> c = 8239 \<or> c = 8287 \<or>
      c = 12288)"

definition strip :: "ustr \<Rightarrow> ustr" where
  "strip s = rev (dropWhile py_isspace (rev (dropWhile py_isspace s)))"

fun split :: "nat \<Rightarrow> ustr \<Rightarrow> ustr list" where
  \<comment> \<open>\<^verbatim>\<open>s.split(sep)\<close> for a separator of one character\<close>
  "split sep [] = [[]]"
| "split sep (c # cs) =
     (if c = sep then [] # split sep cs
      else (case split sep cs of [] \<Rightarrow> [[c]] | p # ps \<Rightarrow> (c # p) # ps))"

definition replace :: "nat \<Rightarrow> nat \<Rightarrow> ustr \<Rightarrow> ustr" where
  \<comment> \<open>\<^verbatim>\<open>s.replace(old, new)\<close> for two strings of one character\<close>
  "replace old new s = map (\<lambda>c. if c = old then new else c) s"

fun startswith :: "ustr \<Rightarrow> ustr \<Rightarrow> bool" where
  "startswith s [] = True"
| "startswith [] (p # ps) = False"
| "startswith (c # cs) (p # ps) = (c = p \<and> startswith cs ps)"

fun str_in :: "ustr \<Rightarrow> ustr \<Rightarrow> bool" where
  \<comment> \<open>\<^verbatim>\<open>kw in s\<close>: \<open>kw\<close> occurs in \<open>s\<close> as a contiguous run\<close>
  "str_in kw [] = (kw = [])"
| "str_in kw (c # cs) = (startswith (c # cs) kw \<or> str_in kw cs)"

definition ascii_lower :: "ustr \<Rightarrow> ustr" where
  \<comment> \<open>what \<^verbatim>\<open>str.lower\<close> computes on a string of ASCII characters\<close>
  "ascii_lower s = map (\<lambda>c. if 65 \<le> c \<and> c \<le> 90 then c + 32 else c) s"

definition FULLWIDTH_COMMA :: nat where
  "FULLWIDTH_COMMA = 65292"

definition COMMA :: nat where
  "COMMA = 44"

definition RETURN_LABEL :: ustr where
  \<comment> \<open>the button "return to main menu": U+2B05 U+FE0F, a space, four CJK characters\<close>
  "RETURN_LABEL = [11013, 65039, 32, 36820, 22238, 20027, 33756, 21333]"

definition ADD_TOKEN_LABEL :: ustr where
  "ADD_TOKEN_LABEL = [10133, 32, 28155, 21152, 30701, 20449, 32, 84, 111, 107, 101, 110]"

definition SWITCH_TOKEN_LABEL :: ustr where
  "SWITCH_TOKEN_LABEL = [128260, 32, 20999, 25442, 30701, 20449, 32, 84, 111, 107, 101, 110]"

definition DELETE_TOKEN_LABEL :: ustr where
  "DELETE_TOKEN_LABEL = [128465, 32, 21024, 38500, 30701, 20449, 32, 84, 111, 107, 101, 110]"

definition SET_CHAT_LABEL :: ustr where
  "SET_CHAT_LABEL = [127919, 32, 35774, 32622, 30446, 26631, 32676, 32452]"

definition SET_KEYWORDS_LABEL :: ustr where
  "SET_KEYWORDS_LABEL = [128273, 32, 35774, 32622, 20851, 38190, 35789]"

definition START_LABEL :: ustr where
  "START_LABEL = [9654, 65039, 32, 24320, 22987, 36716, 21457]"

definition STOP_LABEL :: ustr where
  "STOP_LABEL = [9209, 32, 20572, 27490, 36716, 21457]"

definition SHOW_CONFIG_LABEL :: ustr where
  "SHOW_CONFIG_LABEL = [8505, 65039, 32, 26597, 30475, 37197, 32622]"

subsection \<open>Configuration, messages, effects\<close>

record bot_config =
  sms_tokens :: "ustr list"
  active_sms_token :: "ustr option"
  target_chat_id :: "int option"
  "keywords" :: "ustr list"
  last_seen_id :: "int option"
  poll_interval :: int
  forwarding_enabled :: bool

text \<open>
  A message of the inbox is a JSON object. Each field is \<open>None\<close> when the key is
  absent (\<^verbatim>\<open>msg.get(key)\<close> is \<^verbatim>\<open>None\<close>); an \<^verbatim>\<open>id\<close> that is present is an integer and
  a \<^verbatim>\<open>content\<close> that is present is a string, as the endpoint documents them.
\<close>

record message =
  m_id :: "int option"
  m_content :: "ustr option"
  m_number :: "ustr option"
  m_simnum :: "ustr option"
  m_time :: "ustr option"

datatype effect =
  Send_message int message bool
  \<comment> \<open>\<^verbatim>\<open>send_message\<close> of the formatted message to a chat id; \<open>False\<close> when it raised\<close>
| Save bot_config
  \<comment> \<open>the snapshot \<^verbatim>\<open>BotConfig.save\<close> wrote\<close>

datatype patch =
  Sms_tokens "ustr list"
| Active_sms_token "ustr option"
| Target_chat_id int
| Keywords "ustr list"
| Last_seen_id int
| Forwarding_enabled bool

fun setattr :: "bot_config \<Rightarrow> patch \<Rightarrow> bot_config" where
  "setattr c (Sms_tokens v) = c\<lparr>sms_tokens := v\<rparr>"
| "setattr c (Active_sms_token v) = c\<lparr>active_sms_token := v\<rparr>"
| "setattr c (Target_chat_id v) = c\<lparr>target_chat_id := Some v\<rparr>"
| "setattr c (Keywords v) = c\<lparr>keywords := v\<rparr>"
| "setattr c (Last_seen_id v) = c\<lparr>last_seen_id := Some v\<rparr>"
| "setattr c (Forwarding_enabled v) = c\<lparr>forwarding_enabled := v\<rparr>"

definition update :: "bot_config \<Rightarrow> patch list \<Rightarrow> bot_config \<times> effect list" where
  \<comment> \<open>\<^verbatim>\<open>BotState.update(**kwargs)\<close>: set each field, then save\<close>
  "update c kwargs = (let c' = foldl setattr c kwargs in (c', [Save c']))"

record env =
  admin_user_ids :: "int list"
  str_lower :: "ustr \<Rightarrow> ustr"
  str_to_int :: "ustr \<Rightarrow> int option"
  \<comment> \<open>\<^verbatim>\<open>int(value)\<close>; \<open>None\<close> when it raises \<^verbatim>\<open>ValueError\<close>\<close>

subsection \<open>The poll tick\<close>

datatype fetch_error = Request_failed | Not_a_list

definition sort_by_id :: "message list \<Rightarrow> message list" where
  \<comment> \<open>\<^verbatim>\<open>messages.sort(key=lambda item: item.get("id", 0))\<close>, a stable sort\<close>
  "sort_by_id messages = sort_key (\<lambda>item. case m_id item of None \<Rightarrow> 0 | Some i \<Rightarrow> i) messages"

definition is_new :: "int option \<Rightarrow> message \<Rightarrow> bool" where
  "is_new last_seen msg =
     (case m_id msg of
        None \<Rightarrow> False
      | Some msg_id \<Rightarrow> (case last_seen of None \<Rightarrow> True | Some h \<Rightarrow> msg_id > h))"

definition new_messages :: "int option \<Rightarrow> message list \<Rightarrow> message list" where
  "new_messages last_seen messages = filter (is_new last_seen) (sort_by_id messages)"

definition keyword_hit :: "env \<Rightarrow> ustr list \<Rightarrow> ustr \<Rightarrow> bool" where
  \<comment> \<open>\<^verbatim>\<open>any(kw in content.lower() for kw in keywords)\<close>\<close>
  "keyword_hit e kws content = list_ex (\<lambda>kw. str_in kw (str_lower e content)) kws"

definition get_content :: "message \<Rightarrow> ustr" where
  \<comment> \<open>\<^verbatim>\<open>msg.get("content", "")\<close>\<close>
  "get_content msg = (case m_content msg of None \<Rightarrow> [] | Some c \<Rightarrow> c)"

definition filtered_out :: "env \<Rightarrow> ustr list \<Rightarrow> ustr \<Rightarrow> bool" where
  \<comment> \<open>\<^verbatim>\<open>keywords and not any(kw in content.lower() for kw in keywords)\<close>\<close>
  "filtered_out e kws content = (kws \<noteq> [] \<and> \<not> keyword_hit e kws content)"

definition matches :: "env \<Rightarrow> ustr \<Rightarrow> ustr list \<Rightarrow> bool" where
  \<comment> \<open>the test of the loop for the keywords of the configuration, lowercased before the loop\<close>
  "matches e content K = (\<not> filtered_out e (map (str_lower e) K) content)"

definition seen_or_zero :: "int option \<Rightarrow> int" where
  \<comment> \<open>\<^verbatim>\<open>config.last_seen_id or 0\<close>: an unset mark counts as zero\<close>
  "seen_or_zero h = (case h of None \<Rightarrow> 0 | Some v \<Rightarrow> v)"

fun forward_loop ::
  "env \<Rightarrow> ustr list \<Rightarrow> int \<Rightarrow> (nat \<Rightarrow> bool) \<Rightarrow> nat \<Rightarrow> int \<Rightarrow> message list \<Rightarrow> int \<times> effect list"
where
  "forward_loop e kws chat send n last_seen [] = (last_seen, [])"
| "forward_loop e kws chat send n last_seen (msg # rest) =
     (let last_seen' = max last_seen (case m_id msg of None \<Rightarrow> last_seen | Some i \<Rightarrow> i)
      in if filtered_out e kws (get_content msg)
         then forward_loop e kws chat send n last_seen' rest
         else (case forward_loop e kws chat send (Suc n) last_seen' rest of
                 (final, effs) \<Rightarrow> (final, Send_message chat msg (send n) # effs)))"

definition poll_sms ::
  "env \<Rightarrow> bot_config \<Rightarrow> (ustr \<Rightarrow> fetch_error + message list) \<Rightarrow> (nat \<Rightarrow> bool)
     \<Rightarrow> bot_config \<times> effect list"
where
  "poll_sms e config fetch_sms send =
     (case active_sms_token config of
        None \<Rightarrow> (config, [])
      | Some token \<Rightarrow>
     (case target_chat_id config of
        None \<Rightarrow> (config, [])
      | Some chat \<Rightarrow>
      if \<not> (forwarding_enabled config \<and> token \<noteq> [] \<and> chat \<noteq> 0) then (config, [])
      else (case fetch_sms token of
        Inl exc \<Rightarrow> (config, [])
      | Inr messages \<Rightarrow>
      if messages = [] then (config, [])
      else (let new = new_messages (last_seen_id config) messages in
      if new = [] then (config, [])
      else (let kws = map (str_lower e) (keywords config);
                last_seen = seen_or_zero (last_seen_id config)
            in (case forward_loop e kws chat send 0 last_seen new of
                  (final, sent) \<Rightarrow>
                    (case update config [Last_seen_id final] of
                       (config', saved) \<Rightarrow> (config', sent @ saved))))))))"

subsection \<open>The operator's session and the menu\<close>

datatype chat_lookup = Chat_id int | Lookup_value_error | Lookup_failed

definition resolve_chat_id :: "env \<Rightarrow> (ustr \<Rightarrow> chat_lookup) \<Rightarrow> ustr \<Rightarrow> chat_lookup" where
  \<comment> \<open>\<open>get_chat\<close> is the answer of Telegram for a handle that starts with an at sign\<close>
  "resolve_chat_id e get_chat v =
     (let v' = strip v
      in if startswith v' (asc ''@'') then get_chat v'
         else (case str_to_int e v' of None \<Rightarrow> Lookup_value_error | Some n \<Rightarrow> Chat_id n))"

text \<open>
  The state of the running bot: the configuration held by \<^verbatim>\<open>BotState\<close>, the pending
  action of each operator (\<^verbatim>\<open>context.user_data["mode"]\<close>, by user id) and the job
  queue: \<open>None\<close> when the job-queue module is not installed, else whether a job named
  \<^verbatim>\<open>sms_poll_job\<close> is registered.
\<close>

record bot =
  config :: bot_config
  mode :: "int \<Rightarrow> string option"
  job_queue :: "bool option"

definition set_mode :: "bot \<Rightarrow> int \<Rightarrow> string option \<Rightarrow> bot" where
  "set_mode b user m = b\<lparr>mode := (mode b)(user := m)\<rparr>"

definition state_update :: "bot \<Rightarrow> patch list \<Rightarrow> bot \<times> effect list" where
  "state_update b kwargs = (case update (config b) kwargs of (c', saved) \<Rightarrow> (b\<lparr>config := c'\<rparr>, saved))"

definition is_authorized :: "env \<Rightarrow> int \<Rightarrow> bool" where
  "is_authorized e user = (admin_user_ids e = [] \<or> user \<in> set (admin_user_ids e))"

definition handle_pending_input ::
  "env \<Rightarrow> (ustr \<Rightarrow> chat_lookup) \<Rightarrow> bot \<Rightarrow> int \<Rightarrow> string \<Rightarrow> ustr \<Rightarrow> bot \<times> effect list"
where
  "handle_pending_input e get_chat b user pending text =
     (if pending = ''add_sms_token'' then
        (let token = strip text
         in if token = [] then (b, [])
            else (let tokens = sms_tokens (config b);
                      tokens' = (if token \<notin> set tokens then tokens @ [token] else tokens)
                  in (case state_update b [Sms_tokens tokens', Active_sms_token (Some token)] of
                        (b', saved) \<Rightarrow> (set_mode b' user None, saved))))
      else if pending = ''set_chat_id'' then
        (case resolve_chat_id e get_chat text of
           Lookup_value_error \<Rightarrow> (b, [])
         | Lookup_failed \<Rightarrow> (b, [])
         | Chat_id chat_id \<Rightarrow>
             (case state_update b [Target_chat_id chat_id] of
                (b', saved) \<Rightarrow> (set_mode b' user None, saved)))
      else if pending = ''set_keywords'' then
        (let normalized = replace FULLWIDTH_COMMA COMMA text;
             kws = map strip (filter (\<lambda>part. strip part \<noteq> []) (split COMMA normalized))
         in (case state_update b [Keywords kws] of
               (b', saved) \<Rightarrow> (set_mode b' user None, saved)))
      else if pending = ''select_sms_token'' then
        (if text = RETURN_LABEL then (set_mode b user None, [])
         else if text \<notin> set (sms_tokens (config b)) then (b, [])
         else (case state_update b [Active_sms_token (Some text)] of
                 (b', saved) \<Rightarrow> (set_mode b' user None, saved)))
      else if pending = ''delete_sms_token'' then
        (if text = RETURN_LABEL then (set_mode b user None, [])
         else (let tokens = sms_tokens (config b)
               in if text \<notin> set tokens then (b, [])
                  else (let tokens' = filter (\<lambda>t. t \<noteq> text) tokens;
                            active = active_sms_token (config b);
                            active' = (if active = Some text
                                       then (case tokens' of [] \<Rightarrow> None | t # ts \<Rightarrow> Some t)
                                       else active)
                        in (case state_update b [Sms_tokens tokens', Active_sms_token active'] of
                              (b', saved) \<Rightarrow> (set_mode b' user None, saved)))))
      else (set_mode b user None, []))"

definition ask_sms_token :: "bot \<Rightarrow> int \<Rightarrow> bot \<times> effect list" where
  "ask_sms_token b user = (set_mode b user (Some ''add_sms_token''), [])"

definition choose_sms_token :: "bot \<Rightarrow> int \<Rightarrow> bot \<times> effect list" where
  "choose_sms_token b user =
     (if sms_tokens (config b) = [] then (b, [])
      else (set_mode b user (Some ''select_sms_token''), []))"

definition delete_sms_token :: "bot \<Rightarrow> int \<Rightarrow> bot \<times> effect list" where
  "delete_sms_token b user =
     (if sms_tokens (config b) = [] then (b, [])
      else (set_mode b user (Some ''delete_sms_token''), []))"

definition ask_chat_id :: "bot \<Rightarrow> int \<Rightarrow> bot \<times> effect list" where
  "ask_chat_id b user = (set_mode b user (Some ''set_chat_id''), [])"

definition ask_keywords :: "bot \<Rightarrow> int \<Rightarrow> bot \<times> effect list" where
  "ask_keywords b user = (set_mode b user (Some ''set_keywords''), [])"

definition start_forwarding :: "bot \<Rightarrow> int \<Rightarrow> bot \<times> effect list" where
  "start_forwarding b user =
     (if active_sms_token (config b) = None \<or> active_sms_token (config b) = Some [] then (b, [])
      else if target_chat_id (config b) = None \<or> target_chat_id (config b) = Some 0 then (b, [])
      else (case job_queue b of
              None \<Rightarrow> (b, [])
            | Some existing \<Rightarrow> state_update (b\<lparr>job_queue := Some True\<rparr>) [Forwarding_enabled True]))"

definition stop_forwarding :: "bot \<Rightarrow> int \<Rightarrow> bot \<times> effect list" where
  \<comment> \<open>without a job queue the handler raises before it reaches the update\<close>
  "stop_forwarding b user =
     (case job_queue b of
        None \<Rightarrow> (b, [])
      | Some existing \<Rightarrow> state_update (b\<lparr>job_queue := Some False\<rparr>) [Forwarding_enabled False])"

definition show_config :: "bot \<Rightarrow> int \<Rightarrow> bot \<times> effect list" where
  "show_config b user = (b, [])"

definition back_to_menu :: "bot \<Rightarrow> int \<Rightarrow> bot \<times> effect list" where
  "back_to_menu b user = (set_mode b user None, [])"

definition menu :: "bot \<Rightarrow> int \<Rightarrow> ustr \<Rightarrow> bot \<times> effect list" where
  \<comment> \<open>the table \<^verbatim>\<open>handlers\<close> of \<^verbatim>\<open>handle_message\<close>; a text that is no label changes nothing\<close>
  "menu b user text =
     (if text = ADD_TOKEN_LABEL then ask_sms_token b user
      else if text = SWITCH_TOKEN_LABEL then choose_sms_token b user
      else if text = DELETE_TOKEN_LABEL then delete_sms_token b user
      else if text = SET_CHAT_LABEL then ask_chat_id b user
      else if text = SET_KEYWORDS_LABEL then ask_keywords b user
      else if text = START_LABEL then start_forwarding b user
      else if text = STOP_LABEL then stop_forwarding b user
      else if text = SHOW_CONFIG_LABEL then show_config b user
      else if text = RETURN_LABEL then back_to_menu b user
      else (b, []))"

definition handle_message ::
  "env \<Rightarrow> (ustr \<Rightarrow> chat_lookup) \<Rightarrow> bot \<Rightarrow> int \<Rightarrow> ustr option \<Rightarrow> bot \<times> effect list"
where
  \<comment> \<open>\<^verbatim>\<open>if pending:\<close> holds for a mode that is set and is not the empty string\<close>
  "handle_message e get_chat b user message_text =
     (case message_text of
        None \<Rightarrow> (b, [])
      | Some raw \<Rightarrow>
          if \<not> is_authorized e user then (b, [])
          else (let text = strip raw
                in (case mode b user of
                      None \<Rightarrow> menu b user text
                    | Some pending \<Rightarrow>
                        if pending \<noteq> [] then handle_pending_input e get_chat b user pending text
                        else menu b user text)))"

definition handle_start :: "env \<Rightarrow> bot \<Rightarrow> int \<Rightarrow> bot \<times> effect list" where
  \<comment> \<open>the commands \<^verbatim>\<open>/start\<close> and \<^verbatim>\<open>/menu\<close>: \<^verbatim>\<open>user_data.clear()\<close>\<close>
  "handle_start e b user =
     (if \<not> is_authorized e user then (b, []) else (set_mode b user None, []))"

subsection \<open>Runs of the bot\<close>

datatype event =
  Text_message int "ustr option" "ustr \<Rightarrow> chat_lookup"
| Start_command int
| Poll_tick "ustr \<Rightarrow> fetch_error + message list" "nat \<Rightarrow> bool"

fun step :: "env \<Rightarrow> bot \<Rightarrow> event \<Rightarrow> bot \<times> effect list" where
  "step e b (Text_message user message_text get_chat) = handle_message e get_chat b user message_text"
| "step e b (Start_command user) = handle_start e b user"
| "step e b (Poll_tick fetch_sms send) =
     (case poll_sms e (config b) fetch_sms send of (c', effs) \<Rightarrow> (b\<lparr>config := c'\<rparr>, effs))"

fun run :: "env \<Rightarrow> bot \<Rightarrow> event list \<Rightarrow> bot \<times> effect list" where
  "run e b [] = (b, [])"
| "run e b (ev # evs) =
     (case step e b ev of
        (b', effs) \<Rightarrow> (case run e b' evs of (b'', effs') \<Rightarrow> (b'', effs @ effs')))"

fun saved_configs :: "effect list \<Rightarrow> bot_config list" where
  "saved_configs [] = []"
| "saved_configs (Save c # effs) = c # saved_configs effs"
| "saved_configs (Send_message chat msg ok # effs) = saved_configs effs"

fun sent_messages :: "effect list \<Rightarrow> message list" where
  "sent_messages [] = []"
| "sent_messages (Send_message chat msg ok # effs) = msg # sent_messages effs"
| "sent_messages (Save c # effs) = sent_messages effs"

subsection \<open>Ticks in flight\<close>

text \<open>
  \<^verbatim>\<open>poll_sms\<close> copies the configuration when it starts (\<^verbatim>\<open>state.read()\<close>), works on the
  copy while it awaits the fetch and the sends, and ends with
  \<^verbatim>\<open>state.update(last_seen_id=last_seen)\<close>, which sets that one field of the configuration
  the bot holds by then, whatever mark it holds. \<open>tick_outcome\<close> is what a tick computes
  from its copy: nothing when it returns before the update, else the mark it will write
  and its sends. A tick begins while a poll job is registered; \<^verbatim>\<open>stop_forwarding\<close>
  removes the job but not a tick that has begun.
\<close>

definition tick_outcome ::
  "env \<Rightarrow> bot_config \<Rightarrow> (ustr \<Rightarrow> fetch_error + message list) \<Rightarrow> (nat \<Rightarrow> bool)
     \<Rightarrow> (int \<times> effect list) option"
where
  "tick_outcome e snapshot fetch_sms send =
     (case active_sms_token snapshot of
        None \<Rightarrow> None
      | Some token \<Rightarrow>
     (case target_chat_id snapshot of
        None \<Rightarrow> None
      | Some chat \<Rightarrow>
      if \<not> (forwarding_enabled snapshot \<and> token \<noteq> [] \<and> chat \<noteq> 0) then None
      else (case fetch_sms token of
        Inl exc \<Rightarrow> None
      | Inr messages \<Rightarrow>
      if messages = [] then None
      else (let new = new_messages (last_seen_id snapshot) messages in
      if new = [] then None
      else (let kws = map (str_lower e) (keywords snapshot);
                last_seen = seen_or_zero (last_seen_id snapshot)
            in Some (forward_loop e kws chat send 0 last_seen new))))))"

record flight =
  live :: bot
  snapshots :: "nat \<Rightarrow> bot_config option"

datatype flight_event =
  Atomic event
| Tick_begin nat
| Tick_finish nat "ustr \<Rightarrow> fetch_error + message list" "nat \<Rightarrow> bool"

fun flight_step :: "env \<Rightarrow> flight \<Rightarrow> flight_event \<Rightarrow> flight \<times> effect list" where
  "flight_step e s (Atomic ev) =
     (case step e (live s) ev of (b', effs) \<Rightarrow> (s\<lparr>live := b'\<rparr>, effs))"
| "flight_step e s (Tick_begin k) =
     (if job_queue (live s) = Some True
      then (s\<lparr>snapshots := (snapshots s)(k := Some (config (live s)))\<rparr>, [])
      else (s, []))"
| "flight_step e s (Tick_finish k fetch_sms send) =
     (case snapshots s k of
        None \<Rightarrow> (s, [])
      | Some snapshot \<Rightarrow>
          (case tick_outcome e snapshot fetch_sms send of
             None \<Rightarrow> (s\<lparr>snapshots := (snapshots s)(k := None)\<rparr>, [])
           | Some (final, sent) \<Rightarrow>
               (case state_update (live s) [Last_seen_id final] of
                  (b', saved) \<Rightarrow>
                    (s\<lparr>live := b', snapshots := (snapshots s)(k := None)\<rparr>, sent @ saved))))"

fun flight_run :: "env \<Rightarrow> flight \<Rightarrow> flight_event list \<Rightarrow> flight \<times> effect list" where
  "flight_run e s [] = (s, [])"
| "flight_run e s (ev # evs) =
     (case flight_step e s ev of
        (s', effs) \<Rightarrow> (case flight_run e s' evs of (s'', effs') \<Rightarrow> (s'', effs @ effs')))"

subsection \<open>The specification's mark, and fixtures for concrete runs\<close>

definition spec_updated_mark :: "int option \<Rightarrow> message list \<Rightarrow> int option" where
  \<comment> \<open>the updated mark as the specification words it: the maximum of the mark and of the
     ids that qualify, an unset mark leaving the maximum of the ids; the mark itself when
     no message qualifies\<close>
  "spec_updated_mark h B =
     (case [i. m \<leftarrow> B, i \<leftarrow> (case m_id m of None \<Rightarrow> [] | Some i \<Rightarrow> [i]), is_new h m] of
        [] \<Rightarrow> h
      | i # ids \<Rightarrow> (case h of None \<Rightarrow> Some (Max (set (i # ids)))
                   | Some v \<Rightarrow> Some (max v (Max (set (i # ids))))))"

fun decimal :: "nat \<Rightarrow> ustr \<Rightarrow> nat option" where
  "decimal acc [] = Some acc"
| "decimal acc (c # cs) = (if 48 \<le> c \<and> c \<le> 57 then decimal (10 * acc + (c - 48)) cs else None)"

definition ascii_int :: "ustr \<Rightarrow> int option" where
  \<comment> \<open>what \<^verbatim>\<open>int\<close> computes on ASCII digits with an optional minus sign\<close>
  "ascii_int s =
     (case s of
        [] \<Rightarrow> None
      | c # cs \<Rightarrow>
          if c = 45 then (if cs = [] then None else map_option (\<lambda>n. - int n) (decimal 0 cs))
          else map_option int (decimal 0 (c # cs)))"

definition ascii_env :: env where
  \<comment> \<open>no admin restriction; Python's library on ASCII text\<close>
  "ascii_env = \<lparr>admin_user_ids = [], str_lower = ascii_lower, str_to_int = ascii_int\<rparr>"

definition sms :: "int \<Rightarrow> string \<Rightarrow> message" where
  "sms i body =
     \<lparr>m_id = Some i, m_content = Some (asc body), m_number = None, m_simnum = None, m_time = None\<rparr>"

definition running_config :: "int option \<Rightarrow> ustr list \<Rightarrow> bot_config" where
  \<comment> \<open>forwarding is on, the token is \<open>A\<close>, the chat is 7\<close>
  "running_config h kws =
     \<lparr>sms_tokens = [asc ''A''], active_sms_token = Some (asc ''A''), target_chat_id = Some 7,
      keywords = kws, last_seen_id = h, poll_interval = 5, forwarding_enabled = True\<rparr>"

definition no_chat :: "ustr \<Rightarrow> chat_lookup" where
  \<comment> \<open>Telegram knows no chat by any handle\<close>
  "no_chat v = Lookup_failed"

definition session :: "bot_config \<Rightarrow> string option \<Rightarrow> bot" where
  \<comment> \<open>a bot with an idle job queue where every operator has the pending action \<open>m\<close>\<close>
  "session c m = \<lparr>config = c, mode = (\<lambda>user. m), job_queue = Some False\<rparr>"

definition token_config :: "ustr list \<Rightarrow> ustr option \<Rightarrow> bot_config" where
  \<comment> \<open>the default configuration but for the tokens\<close>
  "token_config tokens active =
     \<lparr>sms_tokens = tokens, active_sms_token = active, target_chat_id = None,
      keywords = [], last_seen_id = None, poll_interval = 5, forwarding_enabled = False\<rparr>"

definition delete_events :: "event list" where
  "delete_events =
     [Text_message 1 (Some (asc ''A'')) no_chat,
      Text_message 1 (Some DELETE_TOKEN_LABEL) no_chat,
      Text_message 1 (Some (asc ''B'')) no_chat]"

definition idle_flight :: "bot_config \<Rightarrow> flight" where
  \<comment> \<open>no tick in flight, no pending action\<close>
  "idle_flight c = \<lparr>live = session c None, snapshots = (\<lambda>k. None)\<rparr>"

definition overlap_events :: "flight_event list" where
  \<comment> \<open>the operator starts, stops and starts forwarding again while the first tick awaits
     its fetch; the second tick ends before the first\<close>
  "overlap_events =
     [Atomic (Text_message 1 (Some START_LABEL) no_chat),
      Tick_begin 1,
      Atomic (Text_message 1 (Some STOP_LABEL) no_chat),
      Atomic (Text_message 1 (Some START_LABEL) no_chat),
      Tick_begin 2,
      Tick_finish 2 (\<lambda>t. Inr [sms 105 ''a'', sms 110 ''b'']) (\<lambda>n. True),
      Tick_finish 1 (\<lambda>t. Inr [sms 105 ''a'']) (\<lambda>n. True)]"

subsection \<open>Notions of the specification\<close>

definition token_inv :: "bot_config \<Rightarrow> bool" where
  \<comment> \<open>the active token is unset or one of the listed tokens\<close>
  "token_inv c = (case active_sms_token c of None \<Rightarrow> True | Some t \<Rightarrow> t \<in> set (sms_tokens c))"

fun join :: "nat \<Rightarrow> ustr list \<Rightarrow> ustr" where
  \<comment> \<open>\<^verbatim>\<open>sep.join(pieces)\<close> for a separator of one character\<close>
  "join sep [] = []"
| "join sep [p] = p"
| "join sep (p # q # ps) = p @ sep # join sep (q # ps)"

section \<open>Properties of the poll tick\<close>

subsection \<open>The loop and the tick\<close>

lemma forward_loop_sent:
  "sent_messages (snd (forward_loop e kws chat send n ls msgs)) =
     filter (\<lambda>m. \<not> filtered_out e kws (get_content m)) msgs"
  by (induction msgs arbitrary: n ls) (simp_all add: Let_def case_prod_beta)

lemma forward_loop_saved:
  "saved_configs (snd (forward_loop e kws chat send n ls msgs)) = []"
  by (induction msgs arbitrary: n ls) (simp_all add: Let_def case_prod_beta)

lemma forward_loop_final:
  "map m_id msgs = map Some ids \<Longrightarrow>
   fst (forward_loop e kws chat send n ls msgs) = Max (set (ls # ids))"
proof (induction msgs arbitrary: n ls ids)
  case Nil
  then show ?case by simp
next
  case (Cons m ms)
  then obtain i js where ids: "ids = i # js" "m_id m = Some i" "map m_id ms = map Some js"
    by (cases ids) auto
  have "Max (set (max ls i # js)) = Max (set (ls # i # js))"
    by (cases "js = []") (auto simp: max.assoc)
  with Cons.IH[OF ids(3)] ids show ?case
    by (simp add: Let_def case_prod_beta)
qed

lemma forward_loop_send_free:
  "fst (forward_loop e kws chat send n ls msgs) = fst (forward_loop e kws chat send' n' ls msgs)"
  by (induction msgs arbitrary: n n' ls) (simp_all add: Let_def case_prod_beta)

lemma new_messages_ids:
  "\<exists>ids. map m_id (new_messages h B) = map Some ids \<and> sorted ids"
proof -
  let ?key = "\<lambda>item. case m_id item of None \<Rightarrow> (0::int) | Some i \<Rightarrow> i"
  let ?new = "new_messages h B"
  have "sorted (map ?key ?new)"
    unfolding new_messages_def sort_by_id_def by (rule sorted_filter) (rule sorted_sort_key)
  moreover have "\<forall>m \<in> set ?new. m_id m = Some (?key m)"
    by (auto simp: new_messages_def is_new_def split: option.splits)
  then have "map m_id ?new = map Some (map ?key ?new)" by simp
  ultimately show ?thesis by blast
qed

lemma mset_new_messages:
  "mset (new_messages h B) = filter_mset (is_new h) (mset B)"
  by (simp add: new_messages_def sort_by_id_def)


lemma new_messages_Nil: "new_messages h [] = []"
  by (simp add: new_messages_def sort_by_id_def)

lemma poll_sms_run:
  assumes "forwarding_enabled c" "active_sms_token c = Some token" "token \<noteq> []"
    "target_chat_id c = Some chat" "chat \<noteq> 0" "fetch_sms token = Inr B"
    "new_messages (last_seen_id c) B \<noteq> []"
  shows "poll_sms e c fetch_sms send =
     (c\<lparr>last_seen_id := Some (fst (forward_loop e (map (str_lower e) (keywords c)) chat send 0
          (seen_or_zero (last_seen_id c)) (new_messages (last_seen_id c) B)))\<rparr>,
      snd (forward_loop e (map (str_lower e) (keywords c)) chat send 0
          (seen_or_zero (last_seen_id c)) (new_messages (last_seen_id c) B)) @
      [Save (c\<lparr>last_seen_id := Some (fst (forward_loop e (map (str_lower e) (keywords c)) chat send 0
          (seen_or_zero (last_seen_id c)) (new_messages (last_seen_id c) B)))\<rparr>)])"
proof -
  from assms(7) have "B \<noteq> []" by (auto simp: new_messages_Nil)
  with assms show ?thesis
    by (simp add: poll_sms_def update_def Let_def case_prod_beta)
qed

lemma poll_sms_idle:
  assumes "\<not> forwarding_enabled c \<or> active_sms_token c = None \<or> active_sms_token c = Some []
     \<or> target_chat_id c = None \<or> target_chat_id c = Some 0
     \<or> (\<exists>token exc. active_sms_token c = Some token \<and> fetch_sms token = Inl exc)
     \<or> (\<exists>token B. active_sms_token c = Some token \<and> fetch_sms token = Inr B
           \<and> new_messages (last_seen_id c) B = [])"
  shows "poll_sms e c fetch_sms send = (c, [])"
  using assms
  by (auto simp: poll_sms_def Let_def new_messages_Nil split: option.splits sum.splits)

lemma poll_sms_cases:
  obtains (idle) "poll_sms e c fetch_sms send = (c, [])"
  | (run) token chat B where "forwarding_enabled c" "active_sms_token c = Some token" "token \<noteq> []"
    "target_chat_id c = Some chat" "chat \<noteq> 0" "fetch_sms token = Inr B"
    "new_messages (last_seen_id c) B \<noteq> []"
proof (cases "poll_sms e c fetch_sms send = (c, [])")
  case True
  then show ?thesis by (rule idle)
next
  case False
  with poll_sms_idle[of c fetch_sms e send] show ?thesis
    by (cases "active_sms_token c"; cases "target_chat_id c";
        cases "fetch_sms (the (active_sms_token c))") (auto intro: run)
qed


lemma sent_messages_append: "sent_messages (xs @ ys) = sent_messages xs @ sent_messages ys"
  by (induction xs rule: sent_messages.induct) simp_all

lemma saved_configs_append: "saved_configs (xs @ ys) = saved_configs xs @ saved_configs ys"
  by (induction xs rule: saved_configs.induct) simp_all

lemma forward_loop_effects:
  "snd (forward_loop e kws chat send n ls msgs) =
     map (\<lambda>(k, m). Send_message chat m (send k))
       (enumerate n (filter (\<lambda>m. \<not> filtered_out e kws (get_content m)) msgs))"
  by (induction msgs arbitrary: n ls) (simp_all add: Let_def case_prod_beta)

lemma final_covers:
  assumes ids: "map m_id (new_messages h B) = map Some ids"
    and m: "m \<in> set B" "m_id m = Some i"
  shows "i \<le> Max (set (seen_or_zero h # ids))"
proof (cases "is_new h m")
  case True
  with m(1) have "m \<in> set (new_messages h B)"
    by (simp add: new_messages_def sort_by_id_def)
  then have "m_id m \<in> set (map m_id (new_messages h B))" by simp
  with ids m(2) have "i \<in> set ids" by auto
  then show ?thesis by (simp add: Max_ge)
next
  case False
  with m(2) obtain v where "h = Some v" "i \<le> v"
    by (auto simp: is_new_def split: option.splits)
  then have "i \<le> seen_or_zero h" by (simp add: seen_or_zero_def)
  moreover have "seen_or_zero h \<le> Max (set (seen_or_zero h # ids))" by (simp add: Max_ge)
  ultimately show ?thesis by linarith
qed

lemma not_new_below: "m_id m = Some i \<Longrightarrow> i \<le> M \<Longrightarrow> \<not> is_new (Some M) m"
  by (simp add: is_new_def)

lemma nothing_new_after:
  assumes "map m_id (new_messages h B) = map Some ids"
  shows "new_messages (Some (Max (set (seen_or_zero h # ids)))) B = []"
proof -
  have "\<not> is_new (Some (Max (set (seen_or_zero h # ids)))) m" if "m \<in> set B" for m
  proof (cases "m_id m")
    case None
    then show ?thesis by (simp add: is_new_def)
  next
    case (Some i)
    from Some final_covers[OF assms that Some] show ?thesis by (rule not_new_below)
  qed
  then show ?thesis by (simp add: new_messages_def sort_by_id_def filter_empty_conv)
qed

lemma poll_sms_mark:
  assumes "forwarding_enabled c" "active_sms_token c = Some token" "token \<noteq> []"
    "target_chat_id c = Some chat" "chat \<noteq> 0" "fetch_sms token = Inr B"
    and "new_messages (last_seen_id c) B \<noteq> []"
    and "map m_id (new_messages (last_seen_id c) B) = map Some ids"
  shows "last_seen_id (fst (poll_sms e c fetch_sms send)) =
      Some (Max (set (seen_or_zero (last_seen_id c) # ids)))"
  unfolding poll_sms_run[where fetch_sms = fetch_sms and B = B and e = e and send = send,
      OF assms(1-7)]
  using forward_loop_final[OF assms(8)] by simp

lemma sms_simps: "m_id (sms i body) = Some i" "get_content (sms i body) = asc body"
  by (simp_all add: sms_def get_content_def)

lemma pair_in_mset:
  assumes "i < j" "j < length B"
  shows "{#B ! i, B ! j#} \<subseteq># mset B"
proof -
  from assms have B: "B = take j B @ B ! j # drop (Suc j) B"
    by (simp add: id_take_nth_drop)
  from assms have "B ! i = take j B ! i" by simp
  moreover from assms have "i < length (take j B)" by simp
  ultimately have "B ! i \<in># mset (take j B)"
    by (metis nth_mem set_mset_mset)
  then obtain M where M: "mset (take j B) = add_mset (B ! i) M"
    by (blast dest: multi_member_split)
  have "mset B = mset (take j B) + add_mset (B ! j) (mset (drop (Suc j) B))"
    by (subst B) simp
  also have "\<dots> = {#B ! i, B ! j#} + (M + mset (drop (Suc j) B))"
    by (simp add: M)
  finally show ?thesis by simp
qed

subsection \<open>Deduplication against the high-water mark\<close>

text \<open>
  Claim C1, as the code has it. In a tick that reaches the deduplication (forwarding is
  on, a token and a chat are set, the fetch returned the batch \<open>B\<close>):
  the new messages are exactly the messages of \<open>B\<close> whose id qualifies (the mark is unset
  or the id is above it), each as often as it stands in \<open>B\<close>; all of them carry an id, so
  a message without one is dropped, and their ids ascend; the messages sent are the new
  ones that match the keywords, in that order; when some message qualifies the mark
  written is the maximum of the ids that qualify and of the old mark, where an unset
  mark counts as 0, and it is written once; when none qualifies nothing is written and
  the configuration stays as it was.
\<close>

theorem poll_sms_dedup:
  assumes "forwarding_enabled c" "active_sms_token c = Some token" "token \<noteq> []"
    "target_chat_id c = Some chat" "chat \<noteq> 0" "fetch_sms token = Inr B"
  shows "mset (new_messages (last_seen_id c) B) = filter_mset (is_new (last_seen_id c)) (mset B)
    \<and> (\<exists>ids. map m_id (new_messages (last_seen_id c) B) = map Some ids \<and> sorted ids
          \<and> (new_messages (last_seen_id c) B \<noteq> [] \<longrightarrow>
               last_seen_id (fst (poll_sms e c fetch_sms send)) =
                 Some (Max (set (seen_or_zero (last_seen_id c) # ids)))))
    \<and> sent_messages (snd (poll_sms e c fetch_sms send)) =
        filter (\<lambda>m. matches e (get_content m) (keywords c)) (new_messages (last_seen_id c) B)
    \<and> saved_configs (snd (poll_sms e c fetch_sms send)) =
        (if new_messages (last_seen_id c) B = [] then [] else [fst (poll_sms e c fetch_sms send)])
    \<and> (new_messages (last_seen_id c) B = [] \<longrightarrow> fst (poll_sms e c fetch_sms send) = c)"
proof (cases "new_messages (last_seen_id c) B = []")
  case True
  with assms have "poll_sms e c fetch_sms send = (c, [])"
    by (intro poll_sms_idle) auto
  with True mset_new_messages[of "last_seen_id c" B] show ?thesis
    by simp
next
  case False
  obtain ids where ids: "map m_id (new_messages (last_seen_id c) B) = map Some ids" "sorted ids"
    using new_messages_ids by blast
  note run = poll_sms_run[where fetch_sms = fetch_sms and B = B and e = e and send = send, OF assms False]
  have "last_seen_id (fst (poll_sms e c fetch_sms send)) =
      Some (Max (set (seen_or_zero (last_seen_id c) # ids)))"
    unfolding run using forward_loop_final[OF ids(1)] by simp
  moreover have "sent_messages (snd (poll_sms e c fetch_sms send)) =
        filter (\<lambda>m. matches e (get_content m) (keywords c)) (new_messages (last_seen_id c) B)"
    unfolding run by (simp add: sent_messages_append forward_loop_sent matches_def)
  moreover have "saved_configs (snd (poll_sms e c fetch_sms send)) = [fst (poll_sms e c fetch_sms send)]"
    unfolding run by (simp add: saved_configs_append forward_loop_saved)
  ultimately show ?thesis using False ids mset_new_messages[of "last_seen_id c" B] by auto
qed


theorem poll_sms_dedup_witness:
  "map m_id (new_messages (Some 100) [sms 101 ''a'', sms 99 ''b'', sms 103 ''c'']) = [Some 101, Some 103]
   \<and> last_seen_id (fst (poll_sms ascii_env (running_config (Some 100) [])
        (\<lambda>t. Inr [sms 101 ''a'', sms 99 ''b'', sms 103 ''c'']) (\<lambda>n. True))) = Some 103
   \<and> sent_messages (snd (poll_sms ascii_env (running_config (Some 100) [])
        (\<lambda>t. Inr [sms 101 ''a'', sms 99 ''b'', sms 103 ''c'']) (\<lambda>n. True))) = [sms 101 ''a'', sms 103 ''c'']"
proof -
  let ?B = "[sms 101 ''a'', sms 99 ''b'', sms 103 ''c'']"
  let ?c = "running_config (Some 100) []"
  have new: "new_messages (Some 100) ?B = [sms 101 ''a'', sms 103 ''c'']"
    by (simp add: new_messages_def sort_by_id_def is_new_def sms_def)
  have c: "forwarding_enabled ?c" "active_sms_token ?c = Some (asc ''A'')" "asc ''A'' \<noteq> []"
    "target_chat_id ?c = Some 7" "(7::int) \<noteq> 0" "last_seen_id ?c = Some 100" "keywords ?c = []"
    by (simp_all add: running_config_def asc_def)
  have ids: "m_id (sms 101 ''a'') = Some 101" "m_id (sms 103 ''c'') = Some 103"
    by (simp_all add: sms_def)
  from poll_sms_dedup[where fetch_sms = "\<lambda>t. Inr ?B" and B = ?B and e = ascii_env
      and send = "\<lambda>n. True", OF c(1-5)]
  show ?thesis
    by (auto simp: c new ids seen_or_zero_def matches_def filtered_out_def Cons_eq_map_conv)
qed

text \<open>
  The claim as the specification states it gives the maximum of the qualifying ids when
  the mark is unset. With an unset mark and the single id \<open>-1\<close> the tick writes 0.
\<close>

theorem poll_sms_dedup_counterexample:
  "last_seen_id (fst (poll_sms ascii_env (running_config None []) (\<lambda>t. Inr [sms (-1) ''a'']) (\<lambda>n. True)))
     = Some 0
   \<and> spec_updated_mark None [sms (-1) ''a''] = Some (-1)"
  by (simp add: poll_sms_def running_config_def asc_def new_messages_def sort_by_id_def is_new_def
      sms_def seen_or_zero_def update_def filtered_out_def spec_updated_mark_def Let_def)

text \<open>
  Claim C2. A second tick on the same batch, with the configuration the first tick left,
  finds no new message: it sends nothing and writes nothing, whatever the outcomes of
  the sends of either tick.
\<close>

theorem poll_sms_idempotent:
  assumes "forwarding_enabled c" "active_sms_token c = Some token" "token \<noteq> []"
    "target_chat_id c = Some chat" "chat \<noteq> 0" "fetch_sms token = Inr B"
    and first: "poll_sms e c fetch_sms send = (c', effs)"
  shows "new_messages (last_seen_id c') B = [] \<and> poll_sms e c' fetch_sms send' = (c', [])"
proof (cases "new_messages (last_seen_id c) B = []")
  case True
  with assms(1-6) have idle: "poll_sms e c fetch_sms s = (c, [])" for s
    by (intro poll_sms_idle) auto
  with first have "c' = c" by simp
  with True idle show ?thesis by simp
next
  case False
  obtain ids where ids: "map m_id (new_messages (last_seen_id c) B) = map Some ids"
    using new_messages_ids by blast
  have "last_seen_id (fst (poll_sms e c fetch_sms send)) =
      Some (Max (set (seen_or_zero (last_seen_id c) # ids)))"
    by (rule poll_sms_mark[where fetch_sms = fetch_sms and B = B, OF assms(1-6) False ids])
  with first have mark: "last_seen_id c' = Some (Max (set (seen_or_zero (last_seen_id c) # ids)))"
    by simp
  have rest: "forwarding_enabled c'" "active_sms_token c' = Some token" "target_chat_id c' = Some chat"
    using first assms(1-6) False
    unfolding poll_sms_run[where fetch_sms = fetch_sms and B = B and e = e and send = send,
        OF assms(1-6) False]
    by auto
  have none: "new_messages (last_seen_id c') B = []"
    unfolding mark by (rule nothing_new_after[OF ids])
  have "poll_sms e c' fetch_sms send' = (c', [])"
    using rest assms(3,5,6) none by (intro poll_sms_idle) auto
  with none show ?thesis by simp
qed


theorem poll_sms_idempotent_witness:
  "new_messages (last_seen_id (fst (poll_sms ascii_env (running_config (Some 100) [])
        (\<lambda>t. Inr [sms 101 ''a'', sms 99 ''b'', sms 103 ''c'']) (\<lambda>n. True))))
     [sms 101 ''a'', sms 99 ''b'', sms 103 ''c''] = []
   \<and> snd (poll_sms ascii_env (fst (poll_sms ascii_env (running_config (Some 100) [])
        (\<lambda>t. Inr [sms 101 ''a'', sms 99 ''b'', sms 103 ''c'']) (\<lambda>n. True)))
        (\<lambda>t. Inr [sms 101 ''a'', sms 99 ''b'', sms 103 ''c'']) (\<lambda>n. False)) = []"
proof -
  let ?B = "[sms 101 ''a'', sms 99 ''b'', sms 103 ''c'']"
  let ?c = "running_config (Some 100) []"
  let ?r = "poll_sms ascii_env ?c (\<lambda>t. Inr ?B) (\<lambda>n. True)"
  have c: "forwarding_enabled ?c" "active_sms_token ?c = Some (asc ''A'')" "asc ''A'' \<noteq> []"
    "target_chat_id ?c = Some 7" "(7::int) \<noteq> 0"
    by (simp_all add: running_config_def asc_def)
  have r: "?r = (fst ?r, snd ?r)" by simp
  from poll_sms_idempotent[where fetch_sms = "\<lambda>t. Inr ?B" and B = ?B and e = ascii_env
      and send = "\<lambda>n. True" and send' = "\<lambda>n. False", OF c _ r]
  show ?thesis by simp
qed

subsection \<open>Failed forwards\<close>

text \<open>
  Claim C6. In a tick with new messages, whatever \<open>send\<close> answers for each attempt
  (\<open>False\<close> is a send that raised): the effects are one send for every new message that
  matches the keywords, in order, followed by exactly one save, of the final
  configuration; that configuration does not depend on the outcomes; and its mark is at
  or above the id of every new message, the failed ones included.
\<close>

theorem forward_failure_keeps_batch:
  assumes "forwarding_enabled c" "active_sms_token c = Some token" "token \<noteq> []"
    "target_chat_id c = Some chat" "chat \<noteq> 0" "fetch_sms token = Inr B"
    and "new_messages (last_seen_id c) B \<noteq> []"
  shows "snd (poll_sms e c fetch_sms send) =
       map (\<lambda>(k, m). Send_message chat m (send k))
         (enumerate 0 (filter (\<lambda>m. matches e (get_content m) (keywords c))
            (new_messages (last_seen_id c) B)))
       @ [Save (fst (poll_sms e c fetch_sms send))]
    \<and> fst (poll_sms e c fetch_sms send) = fst (poll_sms e c fetch_sms send')
    \<and> (\<exists>final. last_seen_id (fst (poll_sms e c fetch_sms send)) = Some final
          \<and> (\<forall>m \<in> set (new_messages (last_seen_id c) B). \<exists>i. m_id m = Some i \<and> i \<le> final))
    \<and> saved_configs (snd (poll_sms e c fetch_sms send)) = [fst (poll_sms e c fetch_sms send)]"
proof -
  let ?new = "new_messages (last_seen_id c) B"
  note run = poll_sms_run[where fetch_sms = fetch_sms and B = B and e = e, OF assms]
  obtain ids where ids: "map m_id ?new = map Some ids"
    using new_messages_ids by blast
  have effs: "snd (poll_sms e c fetch_sms send) =
       map (\<lambda>(k, m). Send_message chat m (send k))
         (enumerate 0 (filter (\<lambda>m. matches e (get_content m) (keywords c)) ?new))
       @ [Save (fst (poll_sms e c fetch_sms send))]"
    unfolding run by (simp add: forward_loop_effects matches_def)
  have same: "fst (poll_sms e c fetch_sms send) = fst (poll_sms e c fetch_sms send')"
    unfolding run using forward_loop_send_free[of e _ chat send 0 _ ?new send' 0] by simp
  have mark: "last_seen_id (fst (poll_sms e c fetch_sms send)) =
      Some (Max (set (seen_or_zero (last_seen_id c) # ids)))"
    by (rule poll_sms_mark[where fetch_sms = fetch_sms and B = B, OF assms ids])
  have cover: "\<exists>i. m_id m = Some i \<and> i \<le> Max (set (seen_or_zero (last_seen_id c) # ids))"
    if "m \<in> set ?new" for m
  proof -
    from that have "m_id m \<in> set (map m_id ?new)" by simp
    with ids obtain i where i: "m_id m = Some i" by auto
    from that have "m \<in> set B" by (simp add: new_messages_def sort_by_id_def)
    from final_covers[OF ids this i] i show ?thesis by blast
  qed
  have saved: "saved_configs (snd (poll_sms e c fetch_sms send)) = [fst (poll_sms e c fetch_sms send)]"
    unfolding run by (simp add: saved_configs_append forward_loop_saved)
  from effs same mark cover saved show ?thesis by blast
qed

theorem forward_failure_keeps_batch_witness:
  "snd (poll_sms ascii_env (running_config (Some 100) [])
        (\<lambda>t. Inr [sms 101 ''a'', sms 99 ''b'', sms 103 ''c'']) (\<lambda>n. 0 < n)) =
     [Send_message 7 (sms 101 ''a'') False, Send_message 7 (sms 103 ''c'') True,
      Save (running_config (Some 103) [])]"
proof -
  let ?B = "[sms 101 ''a'', sms 99 ''b'', sms 103 ''c'']"
  let ?c = "running_config (Some 100) []"
  have new: "new_messages (Some 100) ?B = [sms 101 ''a'', sms 103 ''c'']"
    by (simp add: new_messages_def sort_by_id_def is_new_def sms_def)
  have c: "forwarding_enabled ?c" "active_sms_token ?c = Some (asc ''A'')" "asc ''A'' \<noteq> []"
    "target_chat_id ?c = Some 7" "(7::int) \<noteq> 0"
    by (simp_all add: running_config_def asc_def)
  have c': "last_seen_id ?c = Some 100" "keywords ?c = []"
    by (simp_all add: running_config_def)
  have fst: "fst (poll_sms ascii_env ?c (\<lambda>t. Inr ?B) (\<lambda>n. 0 < n)) = running_config (Some 103) []"
    by (simp add: poll_sms_def running_config_def asc_def new seen_or_zero_def update_def
        filtered_out_def Let_def sms_simps)
  from forward_failure_keeps_batch[where fetch_sms = "\<lambda>t. Inr ?B" and B = ?B and e = ascii_env
      and send = "\<lambda>n. 0 < n" and send' = "\<lambda>n. 0 < n", OF c]
  show ?thesis
    by (simp add: c' new fst matches_def filtered_out_def)
qed

subsection \<open>Two entries with one id\<close>

text \<open>
  Claim C10. When the batch holds entries at two positions with the same id, above the
  mark or with the mark unset, both are among the new messages of the tick, and when
  both match the keywords both are sent: the tick compares ids with the mark only, never
  with one another.
\<close>

theorem duplicate_ids_both_forwarded:
  assumes "forwarding_enabled c" "active_sms_token c = Some token" "token \<noteq> []"
    "target_chat_id c = Some chat" "chat \<noteq> 0" "fetch_sms token = Inr B"
    and "i < j" "j < length B" "m_id (B ! i) = Some k" "m_id (B ! j) = Some k"
    and "\<forall>h. last_seen_id c = Some h \<longrightarrow> h < k"
  shows "{#B ! i, B ! j#} \<subseteq># mset (new_messages (last_seen_id c) B)
    \<and> (matches e (get_content (B ! i)) (keywords c) \<and> matches e (get_content (B ! j)) (keywords c)
         \<longrightarrow> {#B ! i, B ! j#} \<subseteq># mset (sent_messages (snd (poll_sms e c fetch_sms send))))"
proof -
  let ?new = "new_messages (last_seen_id c) B"
  let ?P = "\<lambda>m. matches e (get_content m) (keywords c)"
  from assms(9-11) have new: "is_new (last_seen_id c) (B ! i)" "is_new (last_seen_id c) (B ! j)"
    by (auto simp: is_new_def split: option.splits)
  have "filter_mset (is_new (last_seen_id c)) {#B ! i, B ! j#} \<subseteq># filter_mset (is_new (last_seen_id c)) (mset B)"
    by (rule multiset_filter_mono) (rule pair_in_mset[OF assms(7,8)])
  with new have in_new: "{#B ! i, B ! j#} \<subseteq># mset ?new"
    by (simp add: mset_new_messages)
  then have nonempty: "?new \<noteq> []" by auto
  have sent: "sent_messages (snd (poll_sms e c fetch_sms send)) = filter ?P ?new"
    unfolding poll_sms_run[where fetch_sms = fetch_sms and B = B and e = e and send = send,
        OF assms(1-6) nonempty]
    by (simp add: sent_messages_append forward_loop_sent matches_def)
  have "{#B ! i, B ! j#} \<subseteq># mset (sent_messages (snd (poll_sms e c fetch_sms send)))"
    if "?P (B ! i)" "?P (B ! j)"
  proof -
    have "filter_mset ?P {#B ! i, B ! j#} \<subseteq># filter_mset ?P (mset ?new)"
      by (rule multiset_filter_mono) (rule in_new)
    with that show ?thesis by (simp add: sent)
  qed
  with in_new show ?thesis by blast
qed

theorem duplicate_ids_both_forwarded_witness:
  "sent_messages (snd (poll_sms ascii_env (running_config (Some 100) [])
      (\<lambda>t. Inr [sms 101 ''a'', sms 101 ''b'']) (\<lambda>n. True))) = [sms 101 ''a'', sms 101 ''b'']
   \<and> {#sms 101 ''a'', sms 101 ''b''#} \<subseteq># mset (sent_messages (snd (poll_sms ascii_env
      (running_config (Some 100) []) (\<lambda>t. Inr [sms 101 ''a'', sms 101 ''b'']) (\<lambda>n. True))))"
proof -
  let ?B = "[sms 101 ''a'', sms 101 ''b'']"
  let ?c = "running_config (Some 100) []"
  have new: "new_messages (Some 100) ?B = ?B"
    by (simp add: new_messages_def sort_by_id_def is_new_def sms_simps)
  have c: "forwarding_enabled ?c" "active_sms_token ?c = Some (asc ''A'')" "asc ''A'' \<noteq> []"
    "target_chat_id ?c = Some 7" "(7::int) \<noteq> 0"
    by (simp_all add: running_config_def asc_def)
  have c': "last_seen_id ?c = Some 100" "keywords ?c = []"
    by (simp_all add: running_config_def)
  have sent: "sent_messages (snd (poll_sms ascii_env ?c (\<lambda>t. Inr ?B) (\<lambda>n. True))) = ?B"
    by (simp add: poll_sms_def c c' new seen_or_zero_def update_def
        filtered_out_def Let_def sms_simps case_prod_beta)
  have ix: "(0::nat) < 1" "1 < length ?B" "m_id (?B ! 0) = Some 101" "m_id (?B ! 1) = Some 101"
    "\<forall>h. last_seen_id ?c = Some h \<longrightarrow> h < 101"
    by (simp_all add: sms_simps c')
  from duplicate_ids_both_forwarded[where fetch_sms = "\<lambda>t. Inr ?B" and B = ?B and e = ascii_env
      and send = "\<lambda>n. True", OF c _ ix]
  show ?thesis
    by (simp add: sent c' matches_def filtered_out_def)
qed

section \<open>Properties of the keyword match\<close>

lemma startswith_iff: "startswith s p \<longleftrightarrow> (\<exists>suf. s = p @ suf)"
  by (induction s p rule: startswith.induct) auto

lemma str_in_iff: "str_in kw s \<longleftrightarrow> (\<exists>pre suf. s = pre @ kw @ suf)"
proof (induction s)
  case Nil
  then show ?case by auto
next
  case (Cons c cs)
  show ?case
  proof
    assume "str_in kw (c # cs)"
    then consider "startswith (c # cs) kw" | "str_in kw cs" by auto
    then show "\<exists>pre suf. c # cs = pre @ kw @ suf"
    proof cases
      case 1
      then obtain suf where "c # cs = kw @ suf" by (auto simp: startswith_iff)
      then have "c # cs = [] @ kw @ suf" by simp
      then show ?thesis by blast
    next
      case 2
      then obtain pre suf where "cs = pre @ kw @ suf" using Cons.IH by auto
      then have "c # cs = (c # pre) @ kw @ suf" by simp
      then show ?thesis by blast
    qed
  next
    assume "\<exists>pre suf. c # cs = pre @ kw @ suf"
    then obtain pre suf where eq: "c # cs = pre @ kw @ suf" by auto
    show "str_in kw (c # cs)"
    proof (cases pre)
      case Nil
      with eq have "startswith (c # cs) kw" by (auto simp: startswith_iff)
      then show ?thesis by simp
    next
      case (Cons p ps)
      with eq have "cs = ps @ kw @ suf" by simp
      then have "str_in kw cs" using Cons.IH by auto
      then show ?thesis by simp
    qed
  qed
qed

text \<open>
  Claim C3. The test that decides whether a message is forwarded holds for every content
  when the keyword list is empty, and otherwise holds exactly when some keyword of the
  list, lowercased, occurs in the lowercased content as a contiguous run. Lowercasing is
  \<^verbatim>\<open>str.lower\<close>, whatever it computes.
\<close>

theorem keyword_match:
  "matches e C [] \<and>
   (matches e C K \<longleftrightarrow>
      (K = [] \<or> (\<exists>k \<in> set K. \<exists>pre suf. str_lower e C = pre @ str_lower e k @ suf)))"
  by (auto simp: matches_def filtered_out_def keyword_hit_def list_ex_iff str_in_iff)

theorem keyword_match_witness:
  "matches ascii_env (asc ''Your CODE is 1234'') [asc ''pin'', asc ''Code'']
   \<and> \<not> matches ascii_env (asc ''hello'') [asc ''pin'', asc ''Code'']"
proof -
  have l: "str_lower ascii_env = ascii_lower" by (simp add: ascii_env_def)
  have "ascii_lower (asc ''Your CODE is 1234'') = asc ''your '' @ ascii_lower (asc ''Code'') @ asc '' is 1234''"
    by (simp add: ascii_lower_def asc_def)
  then have "\<exists>k \<in> set [asc ''pin'', asc ''Code'']. \<exists>pre suf.
      str_lower ascii_env (asc ''Your CODE is 1234'') = pre @ str_lower ascii_env k @ suf"
    unfolding l by (metis list.set_intros(1,2))
  then have a: "matches ascii_env (asc ''Your CODE is 1234'') [asc ''pin'', asc ''Code'']"
    using keyword_match[of ascii_env "asc ''Your CODE is 1234''" "[asc ''pin'', asc ''Code'']"]
    by blast
  have "\<not> matches ascii_env (asc ''hello'') [asc ''pin'', asc ''Code'']"
    by (simp add: matches_def filtered_out_def keyword_hit_def l ascii_lower_def asc_def)
  with a show ?thesis by simp
qed

section \<open>Properties of the operator's session\<close>

lemma state_update_eq:
  "state_update b kw = (b\<lparr>config := foldl setattr (config b) kw\<rparr>, [Save (foldl setattr (config b) kw)])"
  by (simp add: state_update_def update_def Let_def)

lemma set_mode_simps: "config (set_mode b u m) = config b" "mode (set_mode b u m) u = m"
  "job_queue (set_mode b u m) = job_queue b"
  by (simp_all add: set_mode_def)

lemma return_cancels_choice:
  assumes "pending = ''select_sms_token'' \<or> pending = ''delete_sms_token''"
  shows "handle_pending_input e g b user pending RETURN_LABEL = (set_mode b user None, [])"
  using assms by (auto simp: handle_pending_input_def)

lemma strip_RETURN_LABEL: "strip RETURN_LABEL = RETURN_LABEL"
  by (simp add: strip_def RETURN_LABEL_def py_isspace_def)

lemma set_keywords_result:
  "handle_pending_input e g b user ''set_keywords'' text =
     (set_mode (b\<lparr>config := (config b)\<lparr>keywords :=
          map strip (filter (\<lambda>part. strip part \<noteq> []) (split COMMA (replace FULLWIDTH_COMMA COMMA text)))\<rparr>\<rparr>)
        user None,
      [Save ((config b)\<lparr>keywords :=
          map strip (filter (\<lambda>part. strip part \<noteq> []) (split COMMA (replace FULLWIDTH_COMMA COMMA text)))\<rparr>)])"
  by (simp add: handle_pending_input_def state_update_eq Let_def)

lemma delete_token_result:
  assumes "text \<in> set (sms_tokens (config b))" "text \<noteq> RETURN_LABEL"
  shows "handle_pending_input e g b user ''delete_sms_token'' text =
     (set_mode (b\<lparr>config := (config b)\<lparr>
          sms_tokens := filter (\<lambda>t. t \<noteq> text) (sms_tokens (config b)),
          active_sms_token :=
            (if active_sms_token (config b) = Some text
             then (case filter (\<lambda>t. t \<noteq> text) (sms_tokens (config b)) of [] \<Rightarrow> None | t # ts \<Rightarrow> Some t)
             else active_sms_token (config b))\<rparr>\<rparr>) user None,
      [Save ((config b)\<lparr>
          sms_tokens := filter (\<lambda>t. t \<noteq> text) (sms_tokens (config b)),
          active_sms_token :=
            (if active_sms_token (config b) = Some text
             then (case filter (\<lambda>t. t \<noteq> text) (sms_tokens (config b)) of [] \<Rightarrow> None | t # ts \<Rightarrow> Some t)
             else active_sms_token (config b))\<rparr>)])"
  using assms by (simp add: handle_pending_input_def state_update_eq Let_def)

lemma foo_bar_stored:
  "handle_pending_input e g b user ''set_keywords'' (asc ''foo, BAR'') =
     (set_mode (b\<lparr>config := (config b)\<lparr>keywords := [asc ''foo'', asc ''BAR'']\<rparr>\<rparr>) user None,
      [Save ((config b)\<lparr>keywords := [asc ''foo'', asc ''BAR'']\<rparr>)])"
proof -
  have "map strip (filter (\<lambda>part. strip part \<noteq> [])
      (split COMMA (replace FULLWIDTH_COMMA COMMA (asc ''foo, BAR'')))) = [asc ''foo'', asc ''BAR'']"
    by (simp add: asc_def replace_def FULLWIDTH_COMMA_def COMMA_def strip_def py_isspace_def)
  then show ?thesis by (simp add: set_keywords_result)
qed

subsection \<open>The return label while an input is awaited\<close>

text \<open>
  Claim C4 does not hold of the code. The label cancels the pending action in the modes
  \<^verbatim>\<open>select_sms_token\<close> and \<^verbatim>\<open>delete_sms_token\<close> (lemma \<open>return_cancels_choice\<close>). In the
  other three modes the handler never compares the text with the label: sent while a new
  token is awaited, the label is stored as a token and made active; sent while keywords
  are awaited, it becomes the keyword list; sent while a chat id is awaited, it is
  rejected as a number and the pending action stays.
\<close>

theorem return_label_taken_as_input:
  "config (fst (handle_message ascii_env no_chat
       (session (token_config [] None) (Some ''add_sms_token'')) 1 (Some RETURN_LABEL)))
     = token_config [RETURN_LABEL] (Some RETURN_LABEL)
   \<and> keywords (config (fst (handle_message ascii_env no_chat
       (session (token_config [] None) (Some ''set_keywords'')) 1 (Some RETURN_LABEL))))
     = [RETURN_LABEL]
   \<and> mode (fst (handle_message ascii_env no_chat
       (session (token_config [] None) (Some ''set_chat_id'')) 1 (Some RETURN_LABEL))) 1
     = Some ''set_chat_id''"
proof -
  have auth: "is_authorized ascii_env 1" by (simp add: is_authorized_def ascii_env_def)
  have a: "config (fst (handle_message ascii_env no_chat
       (session (token_config [] None) (Some ''add_sms_token'')) 1 (Some RETURN_LABEL)))
     = token_config [RETURN_LABEL] (Some RETURN_LABEL)"
    by (simp add: handle_message_def auth strip_RETURN_LABEL session_def handle_pending_input_def
        state_update_eq set_mode_def token_config_def)
       (simp add: RETURN_LABEL_def Let_def)
  have split: "split COMMA (replace FULLWIDTH_COMMA COMMA RETURN_LABEL) = [RETURN_LABEL]"
    by (simp add: replace_def RETURN_LABEL_def COMMA_def FULLWIDTH_COMMA_def)
  have k: "keywords (config (fst (handle_message ascii_env no_chat
       (session (token_config [] None) (Some ''set_keywords'')) 1 (Some RETURN_LABEL))))
     = [RETURN_LABEL]"
    by (simp add: handle_message_def auth strip_RETURN_LABEL session_def set_keywords_result
        split set_mode_def)
       (simp add: RETURN_LABEL_def)
  have int: "str_to_int ascii_env RETURN_LABEL = None"
    by (simp add: ascii_env_def ascii_int_def RETURN_LABEL_def)
  have "resolve_chat_id ascii_env no_chat RETURN_LABEL = Lookup_value_error"
    by (simp add: resolve_chat_id_def strip_RETURN_LABEL int)
       (simp add: RETURN_LABEL_def asc_def)
  then have c: "mode (fst (handle_message ascii_env no_chat
       (session (token_config [] None) (Some ''set_chat_id'')) 1 (Some RETURN_LABEL))) 1
     = Some ''set_chat_id''"
    by (simp add: handle_message_def auth strip_RETURN_LABEL session_def handle_pending_input_def)
  from a k c show ?thesis by simp
qed

subsection \<open>Setting the keywords\<close>

lemma split_not_Nil: "split sep s \<noteq> []"
  by (induction s) (auto split: list.splits)

lemma join_split: "join sep (split sep s) = s"
proof (induction s)
  case Nil
  show ?case by simp
next
  case (Cons c cs)
  obtain p ps where ps: "split sep cs = p # ps"
    using split_not_Nil[of sep cs] by (cases "split sep cs") auto
  with Cons show ?case
    by (cases ps) auto
qed

lemma split_no_sep: "p \<in> set (split sep s) \<Longrightarrow> sep \<notin> set p"
  by (induction s arbitrary: p) (auto split: if_splits list.splits)

lemma split_subset: "p \<in> set (split sep s) \<Longrightarrow> x \<in> set p \<Longrightarrow> x \<in> set s"
  by (induction s arbitrary: p) (fastforce split: if_splits list.splits)+

lemma set_strip: "x \<in> set (strip s) \<Longrightarrow> x \<in> set s"
  by (auto simp: strip_def dest!: set_dropWhileD)

lemma strip_ends:
  assumes "strip s \<noteq> []"
  shows "\<not> py_isspace (hd (strip s)) \<and> \<not> py_isspace (last (strip s))"
proof -
  let ?t = "dropWhile py_isspace s"
  let ?u = "dropWhile py_isspace (rev ?t)"
  from assms have u: "?u \<noteq> []" by (simp add: strip_def)
  have t: "?t \<noteq> []"
  proof
    assume "?t = []"
    then have "?u = []" by (simp only: rev.simps dropWhile.simps)
    with u show False by blast
  qed
  from u have "\<not> py_isspace (hd ?u)" by (rule hd_dropWhile)
  then have l: "\<not> py_isspace (last (strip s))"
    using u by (simp add: strip_def last_rev)
  from u have "last ?u = last (rev ?t)"
    by (metis (no_types, lifting) append_is_Nil_conv last_appendR takeWhile_dropWhile_id)
  then have "hd (strip s) = hd ?t" using u t by (simp add: strip_def hd_rev last_rev)
  moreover from t have "\<not> py_isspace (hd ?t)" by (rule hd_dropWhile)
  ultimately show ?thesis using l by simp
qed

lemma replace_no_old: "old \<noteq> new \<Longrightarrow> old \<notin> set (replace old new s)"
  by (auto simp: replace_def)

text \<open>
  Claim C5, as the code has it. The text is cut at every comma, a full-width comma
  counting as a comma; each piece is stripped of white space at both ends and the pieces
  that are blank are dropped; what is left is stored as it was typed, so no stored entry
  is empty, begins or ends with white space, or holds a comma. The case of the letters
  is kept: the entries are lowercased by each tick, not when they are stored. The
  pending action is cleared and the configuration is saved once.
\<close>

theorem set_keywords_stores_trimmed:
  assumes "handle_pending_input e g b user ''set_keywords'' text = (b', effs)"
  shows "(\<exists>pieces. join COMMA pieces = replace FULLWIDTH_COMMA COMMA text
            \<and> (\<forall>p \<in> set pieces. COMMA \<notin> set p)
            \<and> keywords (config b') = map strip (filter (\<lambda>p. strip p \<noteq> []) pieces))
    \<and> (\<forall>k \<in> set (keywords (config b')).
          k \<noteq> [] \<and> \<not> py_isspace (hd k) \<and> \<not> py_isspace (last k)
          \<and> COMMA \<notin> set k \<and> FULLWIDTH_COMMA \<notin> set k)
    \<and> mode b' user = None \<and> effs = [Save (config b')]"
proof -
  let ?pieces = "split COMMA (replace FULLWIDTH_COMMA COMMA text)"
  from assms have b': "b' = set_mode (b\<lparr>config := (config b)\<lparr>keywords :=
          map strip (filter (\<lambda>part. strip part \<noteq> []) ?pieces)\<rparr>\<rparr>) user None"
    and effs: "effs = [Save ((config b)\<lparr>keywords :=
          map strip (filter (\<lambda>part. strip part \<noteq> []) ?pieces)\<rparr>)]"
    unfolding set_keywords_result by simp_all
  have kws: "keywords (config b') = map strip (filter (\<lambda>p. strip p \<noteq> []) ?pieces)"
    by (simp add: b' set_mode_def)
  have "join COMMA ?pieces = replace FULLWIDTH_COMMA COMMA text" by (rule join_split)
  moreover have "\<forall>p \<in> set ?pieces. COMMA \<notin> set p" by (auto dest: split_no_sep)
  ultimately have first: "\<exists>pieces. join COMMA pieces = replace FULLWIDTH_COMMA COMMA text
            \<and> (\<forall>p \<in> set pieces. COMMA \<notin> set p)
            \<and> keywords (config b') = map strip (filter (\<lambda>p. strip p \<noteq> []) pieces)"
    using kws by blast
  have second: "k \<noteq> [] \<and> \<not> py_isspace (hd k) \<and> \<not> py_isspace (last k)
          \<and> COMMA \<notin> set k \<and> FULLWIDTH_COMMA \<notin> set k" if "k \<in> set (keywords (config b'))" for k
  proof -
    from that kws obtain p where p: "p \<in> set ?pieces" "k = strip p" "strip p \<noteq> []" by auto
    from p(1) have "COMMA \<notin> set p" by (rule split_no_sep)
    moreover have "FULLWIDTH_COMMA \<notin> set p"
      using replace_no_old[of FULLWIDTH_COMMA COMMA "text"] split_subset[OF p(1)]
      by (auto simp: FULLWIDTH_COMMA_def COMMA_def)
    ultimately have "COMMA \<notin> set k" "FULLWIDTH_COMMA \<notin> set k"
      using p(2) by (auto dest: set_strip)
    with strip_ends[OF p(3)] p(2,3) show ?thesis by simp
  qed
  have "mode b' user = None" "effs = [Save (config b')]"
    by (simp_all add: b' effs set_mode_def)
  with first second show ?thesis by blast
qed

text \<open>
  The input \<open>foo, BAR\<close> is stored as \<open>foo\<close> and \<open>BAR\<close>, and the content \<open>a Bar b\<close>
  matches these keywords.
\<close>

theorem set_keywords_stores_trimmed_witness:
  "keywords (config (fst (handle_pending_input ascii_env no_chat
       (session (token_config [] None) (Some ''set_keywords'')) 1 ''set_keywords'' (asc ''foo, BAR''))))
     = [asc ''foo'', asc ''BAR'']
   \<and> matches ascii_env (asc ''a Bar b'') [asc ''foo'', asc ''BAR'']"
proof -
  let ?b = "session (token_config [] None) (Some ''set_keywords'')"
  let ?r = "handle_pending_input ascii_env no_chat ?b 1 ''set_keywords'' (asc ''foo, BAR'')"
  have r: "?r = (fst ?r, snd ?r)" by simp
  have k: "keywords (config (fst ?r)) = [asc ''foo'', asc ''BAR'']"
    using set_keywords_stores_trimmed[OF r] by (simp add: foo_bar_stored set_mode_def)
  have "matches ascii_env (asc ''a Bar b'') [asc ''foo'', asc ''BAR'']"
    by (simp add: matches_def filtered_out_def keyword_hit_def ascii_env_def ascii_lower_def asc_def)
  with k show ?thesis by simp
qed

text \<open>
  The claim as the specification states it has the input stored as \<open>foo\<close> and \<open>bar\<close>.
\<close>

theorem set_keywords_counterexample:
  "keywords (config (fst (handle_message ascii_env no_chat
       (session (token_config [] None) (Some ''set_keywords'')) 1 (Some (asc ''foo, BAR'')))))
     = [asc ''foo'', asc ''BAR'']
   \<and> [asc ''foo'', asc ''BAR''] \<noteq> [asc ''foo'', asc ''bar'']"
proof -
  have auth: "is_authorized ascii_env 1" by (simp add: is_authorized_def ascii_env_def)
  have s: "strip (asc ''foo, BAR'') = asc ''foo, BAR''"
    by (simp add: strip_def asc_def py_isspace_def)
  have "keywords (config (fst (handle_message ascii_env no_chat
       (session (token_config [] None) (Some ''set_keywords'')) 1 (Some (asc ''foo, BAR'')))))
     = [asc ''foo'', asc ''BAR'']"
    by (simp add: handle_message_def auth s)
       (simp add: session_def foo_bar_stored set_mode_def)
  moreover have "[asc ''foo'', asc ''BAR''] \<noteq> [asc ''foo'', asc ''bar'']"
    by (simp add: asc_def)
  ultimately show ?thesis by simp
qed

subsection \<open>Deleting a token\<close>

text \<open>
  Claim C9, as the code has it. While a token to delete is awaited, a text that is one
  of the listed tokens and is not the return label removes that token from the list;
  when it was the active token, the first token that remains becomes active, or none
  when the list is now empty; another active token stays. The pending action is cleared
  and the configuration is saved once. The witness is the scenario of the
  specification: from the tokens \<open>A\<close> and \<open>B\<close> with \<open>A\<close> active, deleting \<open>A\<close> makes \<open>B\<close>
  active, and deleting the last token leaves no active token.
\<close>

theorem delete_token_reassigns:
  assumes "text \<in> set (sms_tokens (config b))" "text \<noteq> RETURN_LABEL"
    and "handle_pending_input e g b user ''delete_sms_token'' text = (b', effs)"
  shows "sms_tokens (config b') = filter (\<lambda>t. t \<noteq> text) (sms_tokens (config b))
    \<and> text \<notin> set (sms_tokens (config b'))
    \<and> (active_sms_token (config b) = Some text \<longrightarrow>
          active_sms_token (config b') = (case sms_tokens (config b') of [] \<Rightarrow> None | t # ts \<Rightarrow> Some t))
    \<and> (active_sms_token (config b) \<noteq> Some text \<longrightarrow>
          active_sms_token (config b') = active_sms_token (config b))
    \<and> mode b' user = None \<and> effs = [Save (config b')]"
  using assms(3) unfolding delete_token_result[OF assms(1,2)]
  by (auto simp: set_mode_def)

theorem delete_token_reassigns_witness:
  "active_sms_token (config (fst (handle_pending_input ascii_env no_chat
       (session (token_config [asc ''A'', asc ''B''] (Some (asc ''A''))) (Some ''delete_sms_token''))
       1 ''delete_sms_token'' (asc ''A'')))) = Some (asc ''B'')
   \<and> sms_tokens (config (fst (handle_pending_input ascii_env no_chat
       (session (token_config [asc ''A'', asc ''B''] (Some (asc ''A''))) (Some ''delete_sms_token''))
       1 ''delete_sms_token'' (asc ''A'')))) = [asc ''B'']
   \<and> active_sms_token (config (fst (handle_pending_input ascii_env no_chat
       (session (token_config [asc ''B''] (Some (asc ''B''))) (Some ''delete_sms_token''))
       1 ''delete_sms_token'' (asc ''B'')))) = None"
proof -
  let ?b1 = "session (token_config [asc ''A'', asc ''B''] (Some (asc ''A''))) (Some ''delete_sms_token'')"
  let ?b2 = "session (token_config [asc ''B''] (Some (asc ''B''))) (Some ''delete_sms_token'')"
  let ?r1 = "handle_pending_input ascii_env no_chat ?b1 1 ''delete_sms_token'' (asc ''A'')"
  let ?r2 = "handle_pending_input ascii_env no_chat ?b2 1 ''delete_sms_token'' (asc ''B'')"
  have ne: "asc ''A'' \<noteq> RETURN_LABEL" "asc ''B'' \<noteq> RETURN_LABEL" "asc ''A'' \<noteq> asc ''B''"
    by (simp_all add: asc_def RETURN_LABEL_def)
  have c1: "sms_tokens (config ?b1) = [asc ''A'', asc ''B'']" "active_sms_token (config ?b1) = Some (asc ''A'')"
    by (simp_all add: session_def token_config_def)
  have c2: "sms_tokens (config ?b2) = [asc ''B'']" "active_sms_token (config ?b2) = Some (asc ''B'')"
    by (simp_all add: session_def token_config_def)
  have in1: "asc ''A'' \<in> set (sms_tokens (config ?b1))" by (simp add: c1)
  have in2: "asc ''B'' \<in> set (sms_tokens (config ?b2))" by (simp add: c2)
  from delete_token_reassigns[OF in1 ne(1), of ascii_env no_chat 1 "fst ?r1" "snd ?r1"]
  have r1: "sms_tokens (config (fst ?r1)) = [asc ''B'']"
    "active_sms_token (config (fst ?r1)) = Some (asc ''B'')"
    using ne(3) by (simp_all add: c1)
  from delete_token_reassigns[OF in2 ne(2), of ascii_env no_chat 1 "fst ?r2" "snd ?r2"]
  have r2: "active_sms_token (config (fst ?r2)) = None"
    by (simp add: c2)
  from r1 r2 show ?thesis by simp
qed

text \<open>
  The claim as the specification states it covers every listed token. The return label
  can be a listed token, and the active one, since a new token is not compared with it.
  Sent while a token to delete is awaited, it cancels: the branch compares the text with
  the label before it looks at the list, so the token stays listed and active and
  nothing is saved.
\<close>

theorem delete_token_counterexample:
  "RETURN_LABEL \<in> set (sms_tokens (config
       (session (token_config [RETURN_LABEL] (Some RETURN_LABEL)) (Some ''delete_sms_token''))))
   \<and> sms_tokens (config (fst (handle_pending_input ascii_env no_chat
       (session (token_config [RETURN_LABEL] (Some RETURN_LABEL)) (Some ''delete_sms_token''))
       1 ''delete_sms_token'' RETURN_LABEL))) = [RETURN_LABEL]
   \<and> active_sms_token (config (fst (handle_pending_input ascii_env no_chat
       (session (token_config [RETURN_LABEL] (Some RETURN_LABEL)) (Some ''delete_sms_token''))
       1 ''delete_sms_token'' RETURN_LABEL))) = Some RETURN_LABEL
   \<and> snd (handle_pending_input ascii_env no_chat
       (session (token_config [RETURN_LABEL] (Some RETURN_LABEL)) (Some ''delete_sms_token''))
       1 ''delete_sms_token'' RETURN_LABEL) = []"
  by (simp add: return_cancels_choice set_mode_simps) (simp add: session_def token_config_def)

section \<open>Invariants of runs\<close>

text \<open>
  A run is a sequence of events: texts and commands of operators and poll ticks, with
  any answers of the network. In \<open>run\<close> each event is handled from start to end before
  the next; in \<open>flight_run\<close> a tick begins and ends in two events and anything may
  happen in between.
\<close>

lemma handle_pending_input_frame:
  assumes "handle_pending_input e g b user pending text = (b', effs)"
  shows "(effs = [] \<and> config b' = config b) \<or>
         (effs = [Save (config b')] \<and> last_seen_id (config b') = last_seen_id (config b)
            \<and> (token_inv (config b) \<longrightarrow> token_inv (config b')))"
  using assms
  by (auto simp: handle_pending_input_def state_update_eq set_mode_simps Let_def token_inv_def
      split: if_splits chat_lookup.splits option.splits list.splits)

lemma menu_frame:
  assumes "menu b user text = (b', effs)"
  shows "(effs = [] \<and> config b' = config b) \<or>
         (effs = [Save (config b')] \<and> last_seen_id (config b') = last_seen_id (config b)
            \<and> (token_inv (config b) \<longrightarrow> token_inv (config b')))"
  using assms
  by (auto simp: menu_def ask_sms_token_def choose_sms_token_def delete_sms_token_def
      ask_chat_id_def ask_keywords_def start_forwarding_def stop_forwarding_def show_config_def
      back_to_menu_def state_update_eq set_mode_simps token_inv_def
      split: if_splits option.splits)

lemma handle_message_frame:
  assumes "handle_message e g b user message_text = (b', effs)"
  shows "(effs = [] \<and> config b' = config b) \<or>
         (effs = [Save (config b')] \<and> last_seen_id (config b') = last_seen_id (config b)
            \<and> (token_inv (config b) \<longrightarrow> token_inv (config b')))"
proof (cases "\<exists>raw pending. message_text = Some raw \<and> is_authorized e user
    \<and> mode b user = Some pending \<and> pending \<noteq> []")
  case True
  then obtain raw pending where "message_text = Some raw" "is_authorized e user"
    "mode b user = Some pending" "pending \<noteq> []" by blast
  with assms have "handle_pending_input e g b user pending (strip raw) = (b', effs)"
    by (simp add: handle_message_def)
  then show ?thesis by (rule handle_pending_input_frame)
next
  case False
  show ?thesis
  proof (cases "\<exists>raw. message_text = Some raw \<and> is_authorized e user")
    case True
    then obtain raw where raw: "message_text = Some raw" "is_authorized e user" by blast
    with False assms have "menu b user (strip raw) = (b', effs)"
      by (cases "mode b user") (auto simp: handle_message_def Let_def split: if_splits)
    then show ?thesis by (rule menu_frame)
  next
    case False
    with assms have "b' = b" "effs = []"
      by (auto simp: handle_message_def split: option.splits if_splits)
    then show ?thesis by simp
  qed
qed

lemma poll_sms_frame:
  assumes "poll_sms e c fetch_sms send = (c', effs)"
  shows "(effs = [] \<and> c' = c) \<or>
         (saved_configs effs = [c'] \<and> sms_tokens c' = sms_tokens c
            \<and> active_sms_token c' = active_sms_token c
            \<and> (\<exists>final. last_seen_id c' = Some final \<and> seen_or_zero (last_seen_id c) \<le> final))"
proof (cases rule: poll_sms_cases[of e c fetch_sms send])
  case idle
  with assms show ?thesis by simp
next
  case (run token chat B)
  note eq = poll_sms_run[where fetch_sms = fetch_sms and B = B and e = e and send = send, OF run]
  obtain ids where ids: "map m_id (new_messages (last_seen_id c) B) = map Some ids"
    using new_messages_ids by blast
  have "last_seen_id (fst (poll_sms e c fetch_sms send)) =
      Some (Max (set (seen_or_zero (last_seen_id c) # ids)))"
    by (rule poll_sms_mark[where fetch_sms = fetch_sms and B = B, OF run ids])
  moreover have "seen_or_zero (last_seen_id c) \<le> Max (set (seen_or_zero (last_seen_id c) # ids))"
    by (simp add: Max_ge)
  ultimately have "\<exists>final. last_seen_id c' = Some final \<and> seen_or_zero (last_seen_id c) \<le> final"
    using assms by simp
  moreover from assms have "saved_configs effs = [c']" "sms_tokens c' = sms_tokens c"
    "active_sms_token c' = active_sms_token c"
    unfolding eq by (auto simp: saved_configs_append forward_loop_saved)
  ultimately show ?thesis by blast
qed

lemma token_inv_cong:
  "sms_tokens c' = sms_tokens c \<Longrightarrow> active_sms_token c' = active_sms_token c \<Longrightarrow>
   token_inv c' = token_inv c"
  by (simp add: token_inv_def split: option.splits)

lemma step_frame:
  assumes "step e b ev = (b', effs)"
  shows "(saved_configs effs = [] \<and> config b' = config b) \<or>
         (saved_configs effs = [config b'] \<and> (token_inv (config b) \<longrightarrow> token_inv (config b'))
            \<and> (\<forall>h. last_seen_id (config b) = Some h \<longrightarrow>
                  (\<exists>h'. last_seen_id (config b') = Some h' \<and> h \<le> h')))"
proof (cases ev)
  case (Text_message user message_text get_chat)
  with assms have "handle_message e get_chat b user message_text = (b', effs)" by simp
  from handle_message_frame[OF this] show ?thesis by auto
next
  case (Start_command user)
  with assms show ?thesis
    by (auto simp: handle_start_def set_mode_simps split: if_splits)
next
  case (Poll_tick fetch_sms send)
  obtain c' where c': "poll_sms e (config b) fetch_sms send = (c', effs)" "b' = b\<lparr>config := c'\<rparr>"
    using assms Poll_tick by (auto split: prod.splits)
  from poll_sms_frame[OF c'(1)] c'(2) show ?thesis
    by (auto simp: seen_or_zero_def dest: token_inv_cong)
qed

lemma run_marks:
  assumes "last_seen_id (config b) = Some h" "run e b evs = (b', effs)"
  shows "\<exists>hs. map last_seen_id (saved_configs effs) = map Some hs \<and> sorted (h # hs)"
  using assms
proof (induction evs arbitrary: b h b' effs)
  case Nil
  then show ?case by simp
next
  case (Cons ev evs)
  obtain b1 effs1 where s: "step e b ev = (b1, effs1)" by (cases "step e b ev")
  obtain effs2 where r: "run e b1 evs = (b', effs2)" "effs = effs1 @ effs2"
    using Cons.prems(2) s by (auto split: prod.splits)
  from step_frame[OF s] show ?case
  proof
    assume a: "saved_configs effs1 = [] \<and> config b1 = config b"
    with Cons.prems(1) have "last_seen_id (config b1) = Some h" by simp
    from Cons.IH[OF this r(1)] a r(2) show ?thesis
      by (simp add: saved_configs_append)
  next
    assume a: "saved_configs effs1 = [config b1] \<and> (token_inv (config b) \<longrightarrow> token_inv (config b1))
            \<and> (\<forall>h. last_seen_id (config b) = Some h \<longrightarrow>
                  (\<exists>h'. last_seen_id (config b1) = Some h' \<and> h \<le> h'))"
    with Cons.prems(1) obtain h1 where h1: "last_seen_id (config b1) = Some h1" "h \<le> h1" by blast
    from Cons.IH[OF h1(1) r(1)] obtain hs where
      hs: "map last_seen_id (saved_configs effs2) = map Some hs" "sorted (h1 # hs)" by blast
    from a h1 hs r(2) have "map last_seen_id (saved_configs effs) = map Some (h1 # hs)"
      by (simp add: saved_configs_append)
    moreover from h1(2) hs(2) have "sorted (h # h1 # hs)" by auto
    ultimately show ?thesis by blast
  qed
qed

lemma run_token_inv:
  assumes "token_inv (config b)" "run e b evs = (b', effs)"
  shows "token_inv (config b') \<and> (\<forall>c \<in> set (saved_configs effs). token_inv c)"
  using assms
proof (induction evs arbitrary: b b' effs)
  case Nil
  then show ?case by simp
next
  case (Cons ev evs)
  obtain b1 effs1 where s: "step e b ev = (b1, effs1)" by (cases "step e b ev")
  obtain effs2 where r: "run e b1 evs = (b', effs2)" "effs = effs1 @ effs2"
    using Cons.prems(2) s by (auto split: prod.splits)
  from step_frame[OF s] Cons.prems(1)
  have b1: "token_inv (config b1)" "\<forall>c \<in> set (saved_configs effs1). token_inv c"
    by auto
  from Cons.IH[OF b1(1) r(1)] b1(2) r(2) show ?case
    by (auto simp: saved_configs_append)
qed

lemma delete_run_saved:
  "saved_configs (snd (run ascii_env
      (session (token_config [asc ''A'', asc ''B''] (Some (asc ''A''))) (Some ''delete_sms_token''))
      delete_events))
   = [token_config [asc ''B''] (Some (asc ''B'')), token_config [] None]"
proof -
  have auth: "is_authorized ascii_env 1" by (simp add: is_authorized_def ascii_env_def)
  have s: "strip (asc ''A'') = asc ''A''" "strip (asc ''B'') = asc ''B''"
    "strip DELETE_TOKEN_LABEL = DELETE_TOKEN_LABEL"
    by (simp_all add: strip_def asc_def py_isspace_def DELETE_TOKEN_LABEL_def)
  have ne: "asc ''A'' \<noteq> RETURN_LABEL" "asc ''B'' \<noteq> RETURN_LABEL" "asc ''A'' \<noteq> asc ''B''"
    "asc ''B'' \<noteq> asc ''A''"
    by (simp_all add: asc_def RETURN_LABEL_def)
  have l: "DELETE_TOKEN_LABEL \<noteq> ADD_TOKEN_LABEL" "DELETE_TOKEN_LABEL \<noteq> SWITCH_TOKEN_LABEL"
    by (simp_all add: DELETE_TOKEN_LABEL_def ADD_TOKEN_LABEL_def SWITCH_TOKEN_LABEL_def)
  show ?thesis
    by (simp add: delete_events_def session_def token_config_def handle_message_def auth s
        handle_pending_input_def ne l state_update_eq set_mode_def Let_def menu_def
        delete_sms_token_def)
qed

text \<open>
  Claim C8. From a configuration whose active token is unset or listed, the same holds
  of the configuration after every prefix of any run, and of every snapshot saved.
\<close>

theorem active_token_listed:
  assumes "token_inv (config b)"
  shows "(\<forall>n. token_inv (config (fst (run e b (take n evs)))))
    \<and> (\<forall>c \<in> set (saved_configs (snd (run e b evs))). token_inv c)"
proof -
  have "token_inv (config (fst (run e b xs)))
      \<and> (\<forall>c \<in> set (saved_configs (snd (run e b xs))). token_inv c)" for xs
    using run_token_inv[OF assms, of e xs "fst (run e b xs)" "snd (run e b xs)"] by simp
  then show ?thesis by blast
qed

theorem active_token_listed_witness:
  "saved_configs (snd (run ascii_env
      (session (token_config [asc ''A'', asc ''B''] (Some (asc ''A''))) (Some ''delete_sms_token''))
      delete_events))
     = [token_config [asc ''B''] (Some (asc ''B'')), token_config [] None]
   \<and> token_inv (token_config [asc ''B''] (Some (asc ''B''))) \<and> token_inv (token_config [] None)"
proof -
  let ?b = "session (token_config [asc ''A'', asc ''B''] (Some (asc ''A''))) (Some ''delete_sms_token'')"
  have i: "token_inv (config ?b)"
    by (simp add: token_inv_def session_def token_config_def)
  from active_token_listed[OF i, of ascii_env delete_events] show ?thesis
    by (simp add: delete_run_saved)
qed

lemma poll_sms_outcome:
  "poll_sms e c fetch_sms send =
     (case tick_outcome e c fetch_sms send of
        None \<Rightarrow> (c, [])
      | Some (final, sent) \<Rightarrow>
          (case update c [Last_seen_id final] of (c', saved) \<Rightarrow> (c', sent @ saved)))"
  by (simp add: poll_sms_def tick_outcome_def Let_def split: option.splits sum.splits prod.splits)

text \<open>
  The same invariant with ticks in flight: the update that ends a tick sets the mark
  only, on the configuration the bot holds by then.
\<close>

lemma tick_outcome_saved:
  assumes "tick_outcome e c fetch_sms send = Some (final, sent)"
  shows "saved_configs sent = []"
proof -
  from assms obtain kws chat ls new where "forward_loop e kws chat send 0 ls new = (final, sent)"
    by (auto simp: tick_outcome_def Let_def split: option.splits sum.splits if_splits)
  then have "sent = snd (forward_loop e kws chat send 0 ls new)" by simp
  then show ?thesis by (simp add: forward_loop_saved)
qed

lemma token_inv_mark: "token_inv (c\<lparr>last_seen_id := v\<rparr>) = token_inv c"
  by (rule token_inv_cong) simp_all

lemma flight_step_frame:
  assumes "flight_step e s ev = (s', effs)" "token_inv (config (live s))"
  shows "token_inv (config (live s')) \<and> (\<forall>c \<in> set (saved_configs effs). token_inv c)"
proof (cases ev)
  case (Atomic a)
  then obtain b' where b': "step e (live s) a = (b', effs)" "s' = s\<lparr>live := b'\<rparr>"
    using assms(1) by (auto split: prod.splits)
  from step_frame[OF b'(1)] assms(2) b'(2) show ?thesis by auto
next
  case (Tick_begin k)
  with assms show ?thesis by (auto split: if_splits)
next
  case (Tick_finish k fetch_sms send)
  show ?thesis
  proof (cases "snapshots s k")
    case None
    with Tick_finish assms show ?thesis by simp
  next
    case (Some snapshot)
    show ?thesis
    proof (cases "tick_outcome e snapshot fetch_sms send")
      case None
      with Some Tick_finish assms show ?thesis by auto
    next
      case outcome: (Some r)
      obtain final sent where r: "r = (final, sent)" by (cases r)
      from tick_outcome_saved[OF outcome[unfolded r]] have "saved_configs sent = []" .
      with Some outcome r Tick_finish assms show ?thesis
        by (auto simp: state_update_eq saved_configs_append token_inv_mark)
    qed
  qed
qed

lemma flight_run_token_inv:
  assumes "token_inv (config (live s))" "flight_run e s evs = (s', effs)"
  shows "token_inv (config (live s')) \<and> (\<forall>c \<in> set (saved_configs effs). token_inv c)"
  using assms
proof (induction evs arbitrary: s s' effs)
  case Nil
  then show ?case by simp
next
  case (Cons ev evs)
  obtain s1 effs1 where st: "flight_step e s ev = (s1, effs1)" by (cases "flight_step e s ev")
  obtain effs2 where r: "flight_run e s1 evs = (s', effs2)" "effs = effs1 @ effs2"
    using Cons.prems(2) st by (auto split: prod.splits)
  from flight_step_frame[OF st Cons.prems(1)]
  have s1: "token_inv (config (live s1))" "\<forall>c \<in> set (saved_configs effs1). token_inv c"
    by auto
  from Cons.IH[OF s1(1) r(1)] s1(2) r(2) show ?case
    by (auto simp: saved_configs_append)
qed

lemma begin_finish_is_poll_tick:
  assumes "job_queue (live s) = Some True"
  shows "flight_run e s [Tick_begin k, Tick_finish k fetch_sms send] =
     (case step e (live s) (Poll_tick fetch_sms send) of
        (b', effs) \<Rightarrow> (s\<lparr>live := b', snapshots := (snapshots s)(k := None)\<rparr>, effs))"
  using assms
  by (auto simp: poll_sms_outcome state_update_eq update_def Let_def
      split: option.splits prod.splits)

subsection \<open>The mark with ticks in flight\<close>

text \<open>
  While every tick runs uninterrupted the saved marks never decrease (lemma
  \<open>run_marks\<close>): a tick writes a maximum that includes the mark it read, and no other
  handler writes the mark. A tick that is in flight when forwarding is stopped and
  started again runs beside the first tick of the new job, and both have read the same
  mark (lemma \<open>begin_finish_is_poll_tick\<close> relates the two kinds of run).
\<close>

text \<open>
  Claim C7 does not hold of the code. From the mark 100, a tick begins; the operator
  stops and starts forwarding; the tick of the new job begins, fetches the ids 105 and
  110 and saves the mark 110; then the first tick, whose fetch held the id 105 only,
  saves the mark 105: the update at the end of a tick sets the mark without comparing it
  with the mark the configuration holds.
\<close>

theorem overlapping_ticks_lower_mark:
  "map last_seen_id (saved_configs (snd (flight_run ascii_env
      (idle_flight (running_config (Some 100) [])) overlap_events)))
   = [Some 100, Some 100, Some 100, Some 110, Some 105]"
proof -
  have auth: "is_authorized ascii_env 1" by (simp add: is_authorized_def ascii_env_def)
  have s: "strip START_LABEL = START_LABEL" "strip STOP_LABEL = STOP_LABEL"
    by (simp_all add: strip_def py_isspace_def START_LABEL_def STOP_LABEL_def)
  have l: "START_LABEL \<noteq> ADD_TOKEN_LABEL" "START_LABEL \<noteq> SWITCH_TOKEN_LABEL"
    "START_LABEL \<noteq> DELETE_TOKEN_LABEL" "START_LABEL \<noteq> SET_CHAT_LABEL"
    "START_LABEL \<noteq> SET_KEYWORDS_LABEL"
    "STOP_LABEL \<noteq> ADD_TOKEN_LABEL" "STOP_LABEL \<noteq> SWITCH_TOKEN_LABEL"
    "STOP_LABEL \<noteq> DELETE_TOKEN_LABEL" "STOP_LABEL \<noteq> SET_CHAT_LABEL"
    "STOP_LABEL \<noteq> SET_KEYWORDS_LABEL" "STOP_LABEL \<noteq> START_LABEL"
    by (simp_all add: START_LABEL_def STOP_LABEL_def ADD_TOKEN_LABEL_def SWITCH_TOKEN_LABEL_def
        DELETE_TOKEN_LABEL_def SET_CHAT_LABEL_def SET_KEYWORDS_LABEL_def)
  have A: "asc ''A'' \<noteq> []" by (simp add: asc_def)
  have n: "new_messages (Some 100) [sms 105 ''a'', sms 110 ''b''] = [sms 105 ''a'', sms 110 ''b'']"
    "new_messages (Some 100) [sms 105 ''a''] = [sms 105 ''a'']"
    by (simp_all add: new_messages_def sort_by_id_def is_new_def sms_simps)
  show ?thesis
    by (simp add: overlap_events_def idle_flight_def session_def running_config_def
        handle_message_def auth s menu_def l start_forwarding_def stop_forwarding_def A
        state_update_eq tick_outcome_def n seen_or_zero_def Let_def sms_simps filtered_out_def
        saved_configs_append)
qed

end
